theory Spec2Isabelle
  imports
    Main
    "HOL-Library.Char_ord"
    "HOL-Library.List_Lexorder"
    "HOL-Library.Product_Lexorder"
    "HOL-Library.Multiset"
begin

section \<open>Values of the parsed tree\<close>

text \<open>
  The reshaping step \<open>_post_process\<close> of \<open>hytek_parser/cli.py\<close> works on the tree that
  \<open>attrs.asdict\<close> returns: nested Python dictionaries and lists with scalar leaves.
  A dictionary is an association list in insertion order (Python dictionaries iterate in
  insertion order); its keys are strings (the attribute names, team codes and event
  identifiers) or integers (the meet-local swimmer ids of the parser).  Strings are
  sequences of characters with code points below 256 (the type \<open>char\<close>), compared by
  code point.  Floating-point leaves are not part of the model; the reshaping only
  copies leaves and tests their truth value.
\<close>

datatype pykey = KStr string | KInt int

datatype pyval =
    PNone
  | PBool bool
  | PInt int
  | PStr string
  | PList "pyval list"
  | PDict "(pykey \<times> pyval) list"

type_synonym pydict = "(pykey \<times> pyval) list"

text \<open>The exceptions the reshaping can raise on a tree of the wrong shape.\<close>

datatype py_error = AttributeError | TypeError | ValueError

definition bind_err :: "'e + 'a \<Rightarrow> ('a \<Rightarrow> 'e + 'b) \<Rightarrow> 'e + 'b" where
  "bind_err m f = (case m of Inl e \<Rightarrow> Inl e | Inr x \<Rightarrow> f x)"

text \<open>A \<open>for\<close> loop that appends one result per element and stops at the first exception.\<close>

fun map_err :: "('a \<Rightarrow> 'e + 'b) \<Rightarrow> 'a list \<Rightarrow> 'e + 'b list" where
  "map_err f [] = Inr []"
| "map_err f (x # xs) =
     (case f x of
        Inl e \<Rightarrow> Inl e
      | Inr y \<Rightarrow> (case map_err f xs of Inl e \<Rightarrow> Inl e | Inr ys \<Rightarrow> Inr (y # ys)))"

text \<open>The value a key has when it is stored as a field (\<open>team_map["code"] = code\<close>).\<close>

fun key_val :: "pykey \<Rightarrow> pyval" where
  "key_val (KStr s) = PStr s"
| "key_val (KInt n) = PInt n"

text \<open>Python truth value: \<open>bool(v)\<close>, \<open>v or d\<close>, \<open>if v:\<close>.\<close>

fun truthy :: "pyval \<Rightarrow> bool" where
  "truthy PNone = False"
| "truthy (PBool b) = b"
| "truthy (PInt n) = (n \<noteq> 0)"
| "truthy (PStr s) = (s \<noteq> [])"
| "truthy (PList xs) = (xs \<noteq> [])"
| "truthy (PDict d) = (d \<noteq> [])"

text \<open>\<open>a or b\<close>.\<close>

definition py_or :: "pyval \<Rightarrow> pyval \<Rightarrow> pyval" where
  "py_or a b = (if truthy a then a else b)"

text \<open>
  \<open>d.get(k, default)\<close> and \<open>d.get(k)\<close> on a dictionary, with a string literal \<open>k\<close>.
  The operations on the items of a dictionary do not look at the values, so their types
  leave the values open.
\<close>

definition py_get_default :: "(pykey \<times> 'v) list \<Rightarrow> string \<Rightarrow> 'v \<Rightarrow> 'v" where
  "py_get_default d k dflt = (case map_of d (KStr k) of None \<Rightarrow> dflt | Some v \<Rightarrow> v)"

definition py_get :: "pydict \<Rightarrow> string \<Rightarrow> pyval" where
  "py_get d k = py_get_default d k PNone"

text \<open>\<open>x.get(k)\<close> on any value: only a dictionary has the method.\<close>

definition obj_get :: "pyval \<Rightarrow> string \<Rightarrow> py_error + pyval" where
  "obj_get x k = (case x of PDict d \<Rightarrow> Inr (py_get d k) | _ \<Rightarrow> Inl AttributeError)"

text \<open>\<open>x.items()\<close>.\<close>

definition py_items :: "pyval \<Rightarrow> py_error + pydict" where
  "py_items x = (case x of PDict d \<Rightarrow> Inr d | _ \<Rightarrow> Inl AttributeError)"

text \<open>
  \<open>dict(x)\<close>: a shallow copy of a mapping.  \<open>None\<close>, a boolean and an integer are not
  iterable (\<open>TypeError\<close>); the empty list and the empty string give the empty dictionary;
  a non-empty string is a sequence of one-character strings, none of which is a pair
  (\<open>ValueError\<close>).  A non-empty list is outside the shape of the parsed tree at every
  place where the source calls \<open>dict\<close>; it is reported as \<open>ValueError\<close> (CPython would
  accept a list all of whose elements are two-element sequences).
\<close>

fun py_dict :: "pyval \<Rightarrow> py_error + pydict" where
  "py_dict (PDict d) = Inr d"
| "py_dict PNone = Inl TypeError"
| "py_dict (PBool b) = Inl TypeError"
| "py_dict (PInt n) = Inl TypeError"
| "py_dict (PStr s) = (if s = [] then Inr [] else Inl ValueError)"
| "py_dict (PList xs) = (if xs = [] then Inr [] else Inl ValueError)"

text \<open>The elements a \<open>for\<close> loop over a value visits.\<close>

fun py_iter :: "pyval \<Rightarrow> py_error + pyval list" where
  "py_iter (PList xs) = Inr xs"
| "py_iter (PDict d) = Inr (map (\<lambda>kv. key_val (fst kv)) d)"
| "py_iter (PStr s) = Inr (map (\<lambda>c. PStr [c]) s)"
| "py_iter PNone = Inl TypeError"
| "py_iter (PBool b) = Inl TypeError"
| "py_iter (PInt n) = Inl TypeError"

text \<open>\<open>d[k] = v\<close>: an existing key keeps its position, a new key goes to the end.\<close>

fun dict_set :: "(pykey \<times> 'v) list \<Rightarrow> pykey \<Rightarrow> 'v \<Rightarrow> (pykey \<times> 'v) list" where
  "dict_set [] k v = [(k, v)]"
| "dict_set ((k', v') # d) k v =
     (if k' = k then (k', v) # d else (k', v') # dict_set d k v)"

text \<open>\<open>d.pop(k, None)\<close>, the returned value dropped.\<close>

definition dict_pop :: "(pykey \<times> 'v) list \<Rightarrow> pykey \<Rightarrow> (pykey \<times> 'v) list" where
  "dict_pop d k = filter (\<lambda>kv. fst kv \<noteq> k) d"

section \<open>Pruning: \<open>_drop_none\<close>\<close>

text \<open>
  \<^verbatim>\<open>
  def _drop_none(d):
      result = {}
      for k, v in d.items():
          if v is None: continue
          if isinstance(v, dict) and not v: continue
          result[k] = v
      return result
  \<close>
\<close>

fun is_dict :: "pyval \<Rightarrow> bool" where
  "is_dict (PDict d) = True"
| "is_dict _ = False"

fun drop_none_loop :: "pydict \<Rightarrow> pydict \<Rightarrow> pydict" where
  "drop_none_loop [] result = result"
| "drop_none_loop ((k, v) # d) result =
     (if v = PNone then drop_none_loop d result
      else if is_dict v \<and> \<not> truthy v then drop_none_loop d result
      else drop_none_loop d (dict_set result k v))"

definition drop_none :: "pydict \<Rightarrow> pydict" where
  "drop_none d = drop_none_loop d []"

text \<open>The fields the pruner removes: \<open>None\<close> and the empty dictionary.\<close>

definition prunable :: "pyval \<Rightarrow> bool" where
  "prunable v = (v = PNone \<or> v = PDict [])"

section \<open>Ordering of events: \<open>_sorted_events\<close>\<close>

text \<open>
  \<open>int(key)\<close> on a string, base 10: surrounding whitespace is skipped, one sign may
  precede the digits, and single underscores may separate digits.  Any other string
  raises \<open>ValueError\<close>, which is \<open>None\<close> here.  The whitespace \<open>int\<close> skips is tab, line
  feed, vertical tab, form feed, carriage return and space, and among the other code
  points below 256 the next-line character U+0085 and the no-break space U+00A0 (the
  separators U+001C to U+001F are whitespace for \<open>str.isspace\<close>, not for \<open>int\<close>).  The
  digits of \<open>int\<close> below 256 are \<open>0\<close> to \<open>9\<close>.
\<close>

definition is_space :: "char \<Rightarrow> bool" where
  "is_space c =
     (c \<in> set [CHR 0x09, CHR 0x0A, CHR 0x0B, CHR 0x0C, CHR 0x0D, CHR 0x20, CHR 0x85, CHR 0xA0])"

definition is_digit :: "char \<Rightarrow> bool" where
  "is_digit c = (CHR ''0'' \<le> c \<and> c \<le> CHR ''9'')"

definition digit_val :: "char \<Rightarrow> int" where
  "digit_val c = of_char c - 48"

fun parse_digits :: "string \<Rightarrow> int \<Rightarrow> int option" where
  "parse_digits [] acc = Some acc"
| "parse_digits [c] acc = (if is_digit c then Some (10 * acc + digit_val c) else None)"
| "parse_digits (c # d # cs) acc =
     (if is_digit c then parse_digits (d # cs) (10 * acc + digit_val c)
      else if c = CHR ''_'' \<and> is_digit d then parse_digits cs (10 * acc + digit_val d)
      else None)"

definition parse_unsigned :: "string \<Rightarrow> int option" where
  "parse_unsigned s =
     (case s of
        [] \<Rightarrow> None
      | c # cs \<Rightarrow> if is_digit c then parse_digits cs (digit_val c) else None)"

definition strip :: "string \<Rightarrow> string" where
  "strip s = rev (dropWhile is_space (rev (dropWhile is_space s)))"

text \<open>
  The interpreter refuses to convert a string of more than 4300 digits (the default of
  \<open>sys.int_info.default_max_str_digits\<close>): \<open>int\<close> raises \<open>ValueError\<close>.  It counts
  the digits of the literal, leading zeros included, signs and underscores not; a
  string that \<open>int\<close> accepts has no digit outside the literal.
\<close>

definition max_str_digits :: nat where
  "max_str_digits = 4300"

definition py_int :: "string \<Rightarrow> int option" where
  "py_int s =
     (if max_str_digits < length (filter is_digit s) then None
      else
        (case strip s of
           [] \<Rightarrow> None
         | c # cs \<Rightarrow>
             if c = CHR ''-'' then map_option uminus (parse_unsigned cs)
             else if c = CHR ''+'' then parse_unsigned cs
             else parse_unsigned (c # cs)))"

text \<open>
  \<open>s.isdigit()\<close>: the string is not empty and every character is a digit.  Below 256
  the digits of \<open>str.isdigit\<close> are \<open>0\<close> to \<open>9\<close> and the superscripts two, three and one
  (U+00B2, U+00B3, U+00B9), which \<open>int\<close> does not accept.
\<close>

definition is_digit_char :: "char \<Rightarrow> bool" where
  "is_digit_char c = (is_digit c \<or> c \<in> set [CHR 0xB2, CHR 0xB3, CHR 0xB9])"

definition isdigit :: "string \<Rightarrow> bool" where
  "isdigit s = (s \<noteq> [] \<and> list_all is_digit_char s)"

text \<open>
  \<^verbatim>\<open>
  def _event_key(kv):
      key, _ = kv
      try:
          return (int(key), key)
      except (TypeError, ValueError):
          return (10**9, key)
  \<close>
  \<open>int\<close> of an integer key is the key.
\<close>

definition event_key :: "pykey \<times> 'v \<Rightarrow> int \<times> pykey" where
  "event_key kv =
     (case fst kv of
        KInt n \<Rightarrow> (n, KInt n)
      | KStr s \<Rightarrow> (case py_int s of Some n \<Rightarrow> (n, KStr s) | None \<Rightarrow> (10 ^ 9, KStr s)))"

text \<open>
  Python's \<open><\<close> on two such tuples: the first components decide when they differ, equal
  tuples are not less, and otherwise the keys are compared: two strings by code point,
  prefix first; two integers by value; a string with an integer raises \<open>TypeError\<close>.
\<close>

fun tuple_lt :: "int \<times> pykey \<Rightarrow> int \<times> pykey \<Rightarrow> py_error + bool" where
  "tuple_lt (m, j) (n, k) =
     (if m \<noteq> n then Inr (m < n)
      else if j = k then Inr False
      else (case (j, k) of
              (KStr a, KStr b) \<Rightarrow> Inr (a < b)
            | (KInt a, KInt b) \<Rightarrow> Inr (a < b)
            | _ \<Rightarrow> Inl TypeError))"

text \<open>
  The rank \<open>sorted\<close> orders by when no comparison raises: among keys with the same
  number, either all are strings, or there is the one integer key.
\<close>

definition sort_rank :: "pykey \<times> 'v \<Rightarrow> int \<times> string" where
  "sort_rank kv =
     (case event_key kv of (n, KStr s) \<Rightarrow> (n, s) | (n, KInt i) \<Rightarrow> (n, []))"

text \<open>
  \<open>sorted(events.items(), key=_event_key)\<close>.  \<open>sorted\<close> is stable; it raises when a
  comparison it needs raises, and a sort by comparisons must compare two items that no
  third item separates, so it raises exactly when two items cannot be compared.
\<close>

definition sorted_events :: "(pykey \<times> 'v) list \<Rightarrow> py_error + (pykey \<times> 'v) list" where
  "sorted_events events =
     (if \<forall>a \<in> set events. \<forall>b \<in> set events.
           tuple_lt (event_key a) (event_key b) \<noteq> Inl TypeError
      then Inr (sort_key sort_rank events)
      else Inl TypeError)"

section \<open>Legs and entries\<close>

text \<open>
  The disqualification record of a leg (the first statement of \<open>build_leg\<close>):
  \<^verbatim>\<open>
  if dq_info:
      dq = _drop_none({"code": dq_info.get("code"), "info": dq_info.get("info_str")})
  else:
      dq = None
  \<close>
\<close>

definition build_dq :: "pyval \<Rightarrow> py_error + pyval" where
  "build_dq dq_info =
     (if truthy dq_info then
        bind_err (obj_get dq_info ''code'') (\<lambda>code.
        bind_err (obj_get dq_info ''info_str'') (\<lambda>info.
        Inr (PDict (drop_none [(KStr ''code'', code), (KStr ''info'', info)]))))
      else Inr PNone)"

text \<open>\<open>build_leg(prefix)\<close>, a closure over \<open>entry\<close> in the source; it ends with \<open>return leg or None\<close>.\<close>

definition build_leg :: "pydict \<Rightarrow> string \<Rightarrow> py_error + pyval" where
  "build_leg entry prefix =
     bind_err (build_dq (py_get entry (prefix @ ''_dq_info''))) (\<lambda>dq.
     let leg = drop_none
       [(KStr ''time'', py_get entry (prefix @ ''_time'')),
        (KStr ''course'', py_get entry (prefix @ ''_course'')),
        (KStr ''time_code'', py_get entry (prefix @ ''_time_code'')),
        (KStr ''dq'', dq),
        (KStr ''heat'', py_get entry (prefix @ ''_heat'')),
        (KStr ''lane'', py_get entry (prefix @ ''_lane'')),
        (KStr ''heat_place'', py_get entry (prefix @ ''_heat_place'')),
        (KStr ''overall_place'', py_get entry (prefix @ ''_overall_place'')),
        (KStr ''date'', py_get entry (prefix @ ''_date'')),
        (KStr ''splits'', py_get entry (prefix @ ''_splits''))]
     in Inr (py_or (PDict leg) PNone))"

text \<open>The seed record of an entry.\<close>

definition build_seed :: "pydict \<Rightarrow> pydict" where
  "build_seed entry = drop_none
     [(KStr ''time'', py_get entry ''seed_time''),
      (KStr ''course'', py_get entry ''seed_course''),
      (KStr ''converted_time'', py_get entry ''converted_seed_time''),
      (KStr ''converted_course'', py_get entry ''converted_seed_time_course'')]"

text \<open>
  The swimmer references of an entry:
  \<^verbatim>\<open>
  swimmers_in_entry = entry.get("swimmers", []) or []
  for s in swimmers_in_entry:
      sid = s.get("meet_id")
      swimmer_ids.append(sid)
  \<close>
\<close>

definition swimmer_ids :: "pydict \<Rightarrow> py_error + pyval list" where
  "swimmer_ids entry =
     bind_err (py_iter (py_or (py_get_default entry ''swimmers'' (PList [])) (PList [])))
       (map_err (\<lambda>s. obj_get s ''meet_id''))"

text \<open>The body of the loop over the entries of an event.\<close>

definition reshape_entry :: "pyval \<Rightarrow> py_error + pyval" where
  "reshape_entry e =
     (case e of
        PDict entry \<Rightarrow>
          bind_err (swimmer_ids entry) (\<lambda>ids.
          bind_err (build_leg entry ''prelim'') (\<lambda>prelim.
          bind_err (build_leg entry ''swimoff'') (\<lambda>swimoff.
          bind_err (build_leg entry ''finals'') (\<lambda>finals.
          Inr (PDict (drop_none
            [(KStr ''swimmers'', PList ids),
             (KStr ''relay'', PBool (truthy (py_get_default entry ''relay'' (PBool False)))),
             (KStr ''seed'', py_or (PDict (build_seed entry)) PNone),
             (KStr ''prelim'', prelim),
             (KStr ''swimoff'', swimoff),
             (KStr ''finals'', finals),
             (KStr ''event_number'', py_get entry ''event_number'')]))))))
      | _ \<Rightarrow> Inl AttributeError)"

section \<open>Events, teams, swimmers and the whole reshaping\<close>

text \<open>The body of the loop over the sorted events.\<close>

definition reshape_event :: "pykey \<times> pyval \<Rightarrow> py_error + pyval" where
  "reshape_event kv =
     bind_err (py_dict (snd kv)) (\<lambda>event.
     let e_map = dict_set event (KStr ''number'') (key_val (fst kv)) in
     bind_err (py_iter (py_or (py_get_default e_map ''entries'' (PList [])) (PList [])))
       (\<lambda>entries.
     bind_err (map_err reshape_entry entries) (\<lambda>reshaped_entries.
     Inr (PDict (drop_none
       [(KStr ''number'', py_get e_map ''number''),
        (KStr ''distance'', py_get e_map ''distance''),
        (KStr ''stroke'', py_get e_map ''stroke''),
        (KStr ''course'', py_get e_map ''course''),
        (KStr ''date'', py_get e_map ''date_''),
        (KStr ''fee'', py_get e_map ''fee''),
        (KStr ''gender'', py_get e_map ''gender''),
        (KStr ''gender_age'', py_get e_map ''gender_age''),
        (KStr ''age_min'', py_get e_map ''age_min''),
        (KStr ''age_max'', py_get e_map ''age_max''),
        (KStr ''open'', py_get e_map ''open_''),
        (KStr ''relay'', PBool (truthy (py_get_default e_map ''relay'' (PBool False)))),
        (KStr ''relay_team_id'', py_get e_map ''relay_team_id''),
        (KStr ''relay_swim_team_code'', py_get e_map ''relay_swim_team_code''),
        (KStr ''entries'', PList reshaped_entries)])))))"

text \<open>
  The body of the loop over the teams:
  \<^verbatim>\<open>
  team_map = dict(team)
  team_map["code"] = code
  team_map.pop("swimmers", None)
  teams_list.append(team_map)
  \<close>
\<close>

definition reshape_team :: "pykey \<times> pyval \<Rightarrow> py_error + pyval" where
  "reshape_team kv =
     bind_err (py_dict (snd kv)) (\<lambda>team.
     Inr (PDict (dict_pop (dict_set team (KStr ''code'') (key_val (fst kv))) (KStr ''swimmers''))))"

text \<open>
  \<open>int(meet_id) if isinstance(meet_id, str) and meet_id.isdigit() else meet_id\<close>.
  Nothing catches the \<open>ValueError\<close> of \<open>int\<close> here: it is raised for a key that
  \<open>isdigit\<close> accepts and \<open>int\<close> does not, a key with a superscript digit or with more
  than 4300 digits.
\<close>

definition coerce_meet_id :: "pykey \<Rightarrow> py_error + pyval" where
  "coerce_meet_id meet_id =
     (case meet_id of
        KStr s \<Rightarrow>
          if isdigit s
          then (case py_int s of Some n \<Rightarrow> Inr (PInt n) | None \<Rightarrow> Inl ValueError)
          else Inr (PStr s)
      | KInt n \<Rightarrow> Inr (PInt n))"

text \<open>The body of the loop over the swimmers.\<close>

definition reshape_swimmer :: "pykey \<times> pyval \<Rightarrow> py_error + pyval" where
  "reshape_swimmer kv =
     bind_err (py_dict (snd kv)) (\<lambda>swimmer.
     bind_err (coerce_meet_id (fst kv)) (\<lambda>mid.
     Inr (PDict (dict_set swimmer (KStr ''meet_id'') mid))))"

text \<open>\<open>_post_process(parsed)\<close>.\<close>

definition post_process :: "pydict \<Rightarrow> py_error + pydict" where
  "post_process parsed =
     (let file_section =
        [(KStr ''description'', py_get parsed ''file_description''),
         (KStr ''software'', py_get parsed ''software''),
         (KStr ''date_created'', py_get parsed ''date_created''),
         (KStr ''licensee'', py_get parsed ''licensee'')]
      in
      bind_err (py_dict (py_get_default parsed ''meet'' (PDict []))) (\<lambda>meet.
      bind_err (py_items (py_or (py_get_default meet ''teams'' (PDict [])) (PDict [])))
        (\<lambda>teams.
      bind_err (map_err reshape_team teams) (\<lambda>teams_list.
      bind_err (py_items (py_or (py_get_default meet ''swimmers'' (PDict [])) (PDict [])))
        (\<lambda>swimmers.
      bind_err (map_err reshape_swimmer swimmers) (\<lambda>swimmers_list.
      bind_err (py_items (py_or (py_get_default meet ''events'' (PDict [])) (PDict [])))
        (\<lambda>events.
      bind_err (sorted_events events) (\<lambda>ordered.
      bind_err (map_err reshape_event ordered) (\<lambda>events_list.
      Inr [(KStr ''file'', PDict (drop_none file_section)),
           (KStr ''meet'', PDict (drop_none
             [(KStr ''name'', py_get meet ''name''),
              (KStr ''facility'', py_get meet ''facility''),
              (KStr ''start_date'', py_get meet ''start_date''),
              (KStr ''end_date'', py_get meet ''end_date''),
              (KStr ''altitude'', py_get meet ''altitude''),
              (KStr ''country'', py_get meet ''country''),
              (KStr ''masters'', py_get meet ''masters''),
              (KStr ''type'', py_get meet ''type_''),
              (KStr ''course'', py_get meet ''course''),
              (KStr ''teams'', PList teams_list),
              (KStr ''swimmers'', PList swimmers_list),
              (KStr ''events'', PList events_list)]))])))))))))"

section \<open>The reshaping on a store of objects\<close>

text \<open>
  Python dictionaries and lists are objects with an identity: a variable or a field
  holds a reference, and \<open>d[k] = v\<close>, \<open>d.pop(k)\<close> and \<open>xs.append(v)\<close> change the object
  in place.  To say what the reshaping changes, the second model keeps the objects in
  a store: a list of objects, the address of an object being its index; a new object
  goes to the end.  Scalars are values, dictionaries and lists are references.
\<close>

type_synonym addr = nat

datatype hval = VNone | VBool bool | VInt int | VStr string | VRef addr

datatype hobj = ODict "(pykey \<times> hval) list" | OList "hval list"

type_synonym heap = "hobj list"

text \<open>
  A statement: it raises an exception or returns a value, and in both cases leaves a
  store (what was written before an exception was raised stays written).
\<close>

type_synonym 'a run = "heap \<Rightarrow> (py_error \<times> heap) + ('a \<times> heap)"

definition hret :: "'a \<Rightarrow> 'a run" where
  "hret x h = Inr (x, h)"

definition hbind :: "'a run \<Rightarrow> ('a \<Rightarrow> 'b run) \<Rightarrow> 'b run" where
  "hbind m f h = (case m h of Inl (e, h') \<Rightarrow> Inl (e, h') | Inr (x, h') \<Rightarrow> f x h')"

text \<open>Reading the store, creating an object, changing an object in place.\<close>

definition hread :: "(heap \<Rightarrow> py_error + 'a) \<Rightarrow> 'a run" where
  "hread g h = (case g h of Inl e \<Rightarrow> Inl (e, h) | Inr x \<Rightarrow> Inr (x, h))"

definition hnew :: "hobj \<Rightarrow> hval run" where
  "hnew ob h = Inr (VRef (length h), h @ [ob])"

definition h_lookup :: "heap \<Rightarrow> addr \<Rightarrow> hobj option" where
  "h_lookup h a = (if a < length h then Some (h ! a) else None)"

definition hwrite :: "hval \<Rightarrow> (hobj \<Rightarrow> py_error + hobj) \<Rightarrow> unit run" where
  "hwrite target f h =
     (case target of
        VRef a \<Rightarrow>
          (case h_lookup h a of
             Some ob \<Rightarrow> (case f ob of Inl e \<Rightarrow> Inl (e, h) | Inr ob' \<Rightarrow> Inr ((), h[a := ob']))
           | None \<Rightarrow> Inl (AttributeError, h))
      | _ \<Rightarrow> Inl (AttributeError, h))"

text \<open>A \<open>for\<close> loop: the body once per element, in order, until one raises.\<close>

primrec hiter :: "('a \<Rightarrow> unit run) \<Rightarrow> 'a list \<Rightarrow> unit run" where
  "hiter body [] = hret ()"
| "hiter body (x # xs) = hbind (body x) (\<lambda>_. hiter body xs)"

fun hkey_val :: "pykey \<Rightarrow> hval" where
  "hkey_val (KStr s) = VStr s"
| "hkey_val (KInt n) = VInt n"

text \<open>The items of the dictionary a value refers to; any other value has no \<open>get\<close> and no \<open>items\<close>.\<close>

definition the_dict :: "hval \<Rightarrow> heap \<Rightarrow> py_error + (pykey \<times> hval) list" where
  "the_dict x h =
     (case x of
        VRef a \<Rightarrow> (case h_lookup h a of Some (ODict d) \<Rightarrow> Inr d | _ \<Rightarrow> Inl AttributeError)
      | _ \<Rightarrow> Inl AttributeError)"

definition h_truthy :: "hval \<Rightarrow> heap \<Rightarrow> bool" where
  "h_truthy x h =
     (case x of
        VNone \<Rightarrow> False
      | VBool b \<Rightarrow> b
      | VInt n \<Rightarrow> n \<noteq> 0
      | VStr s \<Rightarrow> s \<noteq> []
      | VRef a \<Rightarrow>
          (case h_lookup h a of
             Some (ODict d) \<Rightarrow> d \<noteq> []
           | Some (OList xs) \<Rightarrow> xs \<noteq> []
           | None \<Rightarrow> False))"

definition h_is_dict :: "hval \<Rightarrow> heap \<Rightarrow> bool" where
  "h_is_dict x h =
     (case x of
        VRef a \<Rightarrow> (case h_lookup h a of Some (ODict d) \<Rightarrow> True | _ \<Rightarrow> False)
      | _ \<Rightarrow> False)"

definition h_truth :: "hval \<Rightarrow> bool run" where
  "h_truth x = hread (\<lambda>h. Inr (h_truthy x h))"

text \<open>\<open>x.get(k, default)\<close> and \<open>x.get(k)\<close>.\<close>

definition h_get_default :: "hval \<Rightarrow> string \<Rightarrow> hval \<Rightarrow> hval run" where
  "h_get_default x k dflt =
     hread (\<lambda>h. case the_dict x h of Inl e \<Rightarrow> Inl e | Inr d \<Rightarrow> Inr (py_get_default d k dflt))"

definition h_get :: "hval \<Rightarrow> string \<Rightarrow> hval run" where
  "h_get x k = h_get_default x k VNone"

text \<open>
  The fields of a dictionary display whose values are \<open>x.get(source)\<close>: pairs of the
  key in the display and the key read from \<open>x\<close>.  The reads change nothing, so they are
  one reading of the store.
\<close>

definition h_fields :: "hval \<Rightarrow> (string \<times> string) list \<Rightarrow> (pykey \<times> hval) list run" where
  "h_fields x fs =
     hread (\<lambda>h. case the_dict x h of
                   Inl e \<Rightarrow> Inl e
                 | Inr d \<Rightarrow> Inr (map (\<lambda>f. (KStr (fst f), py_get_default d (snd f) VNone)) fs))"

text \<open>\<open>x or {}\<close>, \<open>x or []\<close>: the new object is created only when \<open>x\<close> is falsy.\<close>

definition h_or_new :: "hval \<Rightarrow> hobj \<Rightarrow> hval run" where
  "h_or_new x ob = hbind (h_truth x) (\<lambda>t. if t then hret x else hnew ob)"

text \<open>\<open>target[k] = v\<close>, \<open>target.pop(k, None)\<close>, \<open>target.append(v)\<close>.\<close>

definition h_setitem :: "hval \<Rightarrow> pykey \<Rightarrow> hval \<Rightarrow> unit run" where
  "h_setitem target k v =
     hwrite target (\<lambda>ob. case ob of ODict d \<Rightarrow> Inr (ODict (dict_set d k v))
                                   | OList xs \<Rightarrow> Inl TypeError)"

definition h_pop :: "hval \<Rightarrow> pykey \<Rightarrow> unit run" where
  "h_pop target k =
     hwrite target (\<lambda>ob. case ob of ODict d \<Rightarrow> Inr (ODict (dict_pop d k))
                                   | OList xs \<Rightarrow> Inl TypeError)"

definition h_append :: "hval \<Rightarrow> hval \<Rightarrow> unit run" where
  "h_append target v =
     hwrite target (\<lambda>ob. case ob of OList xs \<Rightarrow> Inr (OList (xs @ [v]))
                                   | ODict d \<Rightarrow> Inl AttributeError)"

text \<open>\<open>dict(x)\<close>: a new dictionary with the items of \<open>x\<close> (see \<open>py_dict\<close>).\<close>

definition h_dict :: "hval \<Rightarrow> hval run" where
  "h_dict x =
     hbind (hread (\<lambda>h. case x of
                VRef a \<Rightarrow>
                  (case h_lookup h a of
                     Some (ODict d) \<Rightarrow> Inr d
                   | Some (OList xs) \<Rightarrow> if xs = [] then Inr [] else Inl ValueError
                   | None \<Rightarrow> Inl TypeError)
              | VStr s \<Rightarrow> if s = [] then Inr [] else Inl ValueError
              | _ \<Rightarrow> Inl TypeError))
       (\<lambda>d. hnew (ODict d))"

text \<open>The elements a \<open>for\<close> loop over a value visits (see \<open>py_iter\<close>).\<close>

definition h_iter :: "hval \<Rightarrow> hval list run" where
  "h_iter x =
     hread (\<lambda>h. case x of
                VRef a \<Rightarrow>
                  (case h_lookup h a of
                     Some (OList xs) \<Rightarrow> Inr xs
                   | Some (ODict d) \<Rightarrow> Inr (map (\<lambda>kv. hkey_val (fst kv)) d)
                   | None \<Rightarrow> Inl TypeError)
              | VStr s \<Rightarrow> Inr (map (\<lambda>c. VStr [c]) s)
              | _ \<Rightarrow> Inl TypeError)"

text \<open>
  \<open>x.get(k, {}) or {}\<close> and \<open>x.get(k, []) or []\<close>: the default is created before the
  lookup, the second object only when the value found is falsy.
\<close>

definition h_get_or :: "hval \<Rightarrow> string \<Rightarrow> hobj \<Rightarrow> hval run" where
  "h_get_or x k ob =
     hbind (hread (the_dict x)) (\<lambda>_.
     hbind (hnew ob) (\<lambda>dflt.
     hbind (h_get_default x k dflt) (\<lambda>v.
     h_or_new v ob)))"

text \<open>
  A loop that fills a new list:
  \<^verbatim>\<open>
  out = []
  for x in <items>:
      out.append(<body>(x))
  \<close>
  The list is created first, then the items are computed, then the loop runs.
\<close>

definition collect_h :: "'a list run \<Rightarrow> ('a \<Rightarrow> hval run) \<Rightarrow> hval run" where
  "collect_h items body =
     hbind (hnew (OList [])) (\<lambda>out.
     hbind items (\<lambda>xs.
     hbind (hiter (\<lambda>x. hbind (body x) (h_append out)) xs) (\<lambda>_.
     hret out)))"

text \<open>
  \<open>_drop_none(d)\<close>: \<open>result\<close> is a new dictionary, and \<open>result[k] = v\<close> changes it in
  place.  The loop runs over the items \<open>d\<close> has when the loop starts.
\<close>

definition drop_none_h :: "hval \<Rightarrow> hval run" where
  "drop_none_h d =
     hbind (hnew (ODict [])) (\<lambda>result.
     hbind (hread (the_dict d)) (\<lambda>items.
     hbind (hiter (\<lambda>kv.
        if snd kv = VNone then hret ()
        else hbind (hread (\<lambda>h. Inr (h_is_dict (snd kv) h \<and> \<not> h_truthy (snd kv) h)))
               (\<lambda>empty. if empty then hret () else h_setitem result (fst kv) (snd kv)))
        items) (\<lambda>_.
     hret result)))"

text \<open>A dictionary display followed by \<open>_drop_none\<close>: \<open>_drop_none({...})\<close>.\<close>

definition pruned_h :: "(pykey \<times> hval) list \<Rightarrow> hval run" where
  "pruned_h fields = hbind (hnew (ODict fields)) drop_none_h"

definition build_dq_h :: "hval \<Rightarrow> hval run" where
  "build_dq_h dq_info =
     hbind (h_truth dq_info) (\<lambda>t.
     if t then
       hbind (h_fields dq_info [(''code'', ''code''), (''info'', ''info_str'')]) pruned_h
     else hret VNone)"

definition build_leg_h :: "hval \<Rightarrow> string \<Rightarrow> hval run" where
  "build_leg_h entry prefix =
     hbind (h_get entry (prefix @ ''_dq_info'')) (\<lambda>dq_info.
     hbind (build_dq_h dq_info) (\<lambda>dq.
     hbind (h_fields entry
        [(''time'', prefix @ ''_time''), (''course'', prefix @ ''_course''),
         (''time_code'', prefix @ ''_time_code'')]) (\<lambda>before.
     hbind (h_fields entry
        [(''heat'', prefix @ ''_heat''), (''lane'', prefix @ ''_lane''),
         (''heat_place'', prefix @ ''_heat_place''),
         (''overall_place'', prefix @ ''_overall_place''),
         (''date'', prefix @ ''_date''), (''splits'', prefix @ ''_splits'')]) (\<lambda>after.
     hbind (pruned_h (before @ [(KStr ''dq'', dq)] @ after)) (\<lambda>leg.
     hbind (h_truth leg) (\<lambda>t.
     hret (if t then leg else VNone)))))))"

text \<open>The body of the loop over the entries of an event, up to the \<open>append\<close>.\<close>

definition reshape_entry_h :: "hval \<Rightarrow> hval run" where
  "reshape_entry_h entry =
     hbind (h_get_or entry ''swimmers'' (OList [])) (\<lambda>swimmers_in_entry.
     hbind (collect_h (h_iter swimmers_in_entry) (\<lambda>s. h_get s ''meet_id'')) (\<lambda>swimmer_ids.
     hbind (h_fields entry
        [(''time'', ''seed_time''), (''course'', ''seed_course''),
         (''converted_time'', ''converted_seed_time''),
         (''converted_course'', ''converted_seed_time_course'')]) (\<lambda>sf.
     hbind (pruned_h sf) (\<lambda>seed.
     hbind (h_get_default entry ''relay'' (VBool False)) (\<lambda>r.
     hbind (h_truth r) (\<lambda>relay.
     hbind (h_truth seed) (\<lambda>st.
     hbind (build_leg_h entry ''prelim'') (\<lambda>prelim.
     hbind (build_leg_h entry ''swimoff'') (\<lambda>swimoff.
     hbind (build_leg_h entry ''finals'') (\<lambda>finals.
     hbind (h_get entry ''event_number'') (\<lambda>event_number.
     pruned_h
        [(KStr ''swimmers'', swimmer_ids),
         (KStr ''relay'', VBool relay),
         (KStr ''seed'', if st then seed else VNone),
         (KStr ''prelim'', prelim),
         (KStr ''swimoff'', swimoff),
         (KStr ''finals'', finals),
         (KStr ''event_number'', event_number)])))))))))))"

text \<open>The body of the loop over the sorted events, up to the \<open>append\<close>.\<close>

definition reshape_event_h :: "pykey \<times> hval \<Rightarrow> hval run" where
  "reshape_event_h kv =
     hbind (h_dict (snd kv)) (\<lambda>e_map.
     hbind (h_setitem e_map (KStr ''number'') (hkey_val (fst kv))) (\<lambda>_.
     hbind (collect_h (hbind (h_get_or e_map ''entries'' (OList [])) h_iter) reshape_entry_h)
       (\<lambda>reshaped_entries.
     hbind (h_fields e_map
        [(''number'', ''number''), (''distance'', ''distance''), (''stroke'', ''stroke''),
         (''course'', ''course''), (''date'', ''date_''), (''fee'', ''fee''),
         (''gender'', ''gender''), (''gender_age'', ''gender_age''),
         (''age_min'', ''age_min''), (''age_max'', ''age_max''), (''open'', ''open_'')])
       (\<lambda>before.
     hbind (h_get_default e_map ''relay'' (VBool False)) (\<lambda>r.
     hbind (h_truth r) (\<lambda>relay.
     hbind (h_fields e_map
        [(''relay_team_id'', ''relay_team_id''),
         (''relay_swim_team_code'', ''relay_swim_team_code'')]) (\<lambda>after.
     pruned_h (before @ [(KStr ''relay'', VBool relay)] @ after @
               [(KStr ''entries'', reshaped_entries)]))))))))"

text \<open>The body of the loop over the teams, up to the \<open>append\<close>.\<close>

definition reshape_team_h :: "pykey \<times> hval \<Rightarrow> hval run" where
  "reshape_team_h kv =
     hbind (h_dict (snd kv)) (\<lambda>team_map.
     hbind (h_setitem team_map (KStr ''code'') (hkey_val (fst kv))) (\<lambda>_.
     hbind (h_pop team_map (KStr ''swimmers'')) (\<lambda>_.
     hret team_map)))"

definition coerce_meet_id_h :: "pykey \<Rightarrow> py_error + hval" where
  "coerce_meet_id_h meet_id =
     (case meet_id of
        KStr s \<Rightarrow>
          if isdigit s
          then (case py_int s of Some n \<Rightarrow> Inr (VInt n) | None \<Rightarrow> Inl ValueError)
          else Inr (VStr s)
      | KInt n \<Rightarrow> Inr (VInt n))"

text \<open>The body of the loop over the swimmers, up to the \<open>append\<close>.\<close>

definition reshape_swimmer_h :: "pykey \<times> hval \<Rightarrow> hval run" where
  "reshape_swimmer_h kv =
     hbind (h_dict (snd kv)) (\<lambda>swimmer_map.
     hbind (hread (\<lambda>h. coerce_meet_id_h (fst kv))) (\<lambda>mid.
     hbind (h_setitem swimmer_map (KStr ''meet_id'') mid) (\<lambda>_.
     hret swimmer_map)))"

text \<open>
  \<open>_post_process(parsed)\<close>.  The file section is pruned last, where the source calls
  \<open>_drop_none(file_section)\<close> in the \<open>return\<close> statement.
\<close>

definition post_process_h :: "hval \<Rightarrow> hval run" where
  "post_process_h parsed =
     hbind (h_fields parsed
        [(''description'', ''file_description''), (''software'', ''software''),
         (''date_created'', ''date_created''), (''licensee'', ''licensee'')]) (\<lambda>ff.
     hbind (hnew (ODict ff)) (\<lambda>file_section.
     hbind (hnew (ODict [])) (\<lambda>dflt.
     hbind (h_get_default parsed ''meet'' dflt) (\<lambda>m.
     hbind (h_dict m) (\<lambda>meet.
     hbind (h_get_or meet ''teams'' (ODict [])) (\<lambda>teams.
     hbind (collect_h (hread (the_dict teams)) reshape_team_h) (\<lambda>teams_list.
     hbind (h_get_or meet ''swimmers'' (ODict [])) (\<lambda>swimmers.
     hbind (collect_h (hread (the_dict swimmers)) reshape_swimmer_h) (\<lambda>swimmers_list.
     hbind (h_get_or meet ''events'' (ODict [])) (\<lambda>events.
     hbind (collect_h
              (hbind (hread (the_dict events)) (\<lambda>items. hread (\<lambda>h. sorted_events items)))
              reshape_event_h) (\<lambda>events_list.
     hbind (h_fields meet
        [(''name'', ''name''), (''facility'', ''facility''), (''start_date'', ''start_date''),
         (''end_date'', ''end_date''), (''altitude'', ''altitude''), (''country'', ''country''),
         (''masters'', ''masters''), (''type'', ''type_''), (''course'', ''course'')]) (\<lambda>mf.
     hbind (pruned_h (mf @
        [(KStr ''teams'', teams_list), (KStr ''swimmers'', swimmers_list),
         (KStr ''events'', events_list)])) (\<lambda>meet_out.
     hbind (drop_none_h file_section) (\<lambda>file_out.
     hnew (ODict [(KStr ''file'', file_out), (KStr ''meet'', meet_out)])))))))))))))))"

text \<open>
  What a run may change.  \<open>keeps n h h'\<close>: the store \<open>h'\<close> has every object of \<open>h\<close>, and
  the objects at the addresses below \<open>n\<close> are the same.  A reference is fresh for \<open>n\<close>
  when its address is not below \<open>n\<close>.  \<open>local_writes n m Q\<close>: started in a store with at
  least \<open>n\<close> objects, a run of \<open>m\<close> keeps the first \<open>n\<close> objects, whether it raises or
  returns, and a result it returns satisfies \<open>Q\<close>.
\<close>

definition keeps :: "nat \<Rightarrow> heap \<Rightarrow> heap \<Rightarrow> bool" where
  "keeps n h h' = (length h \<le> length h' \<and> take n h' = take n h)"

definition fresh :: "nat \<Rightarrow> hval \<Rightarrow> bool" where
  "fresh n v = (case v of VRef a \<Rightarrow> n \<le> a | _ \<Rightarrow> False)"

definition local_writes :: "nat \<Rightarrow> 'a run \<Rightarrow> ('a \<Rightarrow> bool) \<Rightarrow> bool" where
  "local_writes n m Q =
     (\<forall>h. n \<le> length h \<longrightarrow>
        (case m h of
           Inl (e, h') \<Rightarrow> keeps n h h'
         | Inr (x, h') \<Rightarrow> keeps n h h' \<and> Q x))"

text \<open>The store a run leaves, whether it raised or returned.\<close>

definition store_after :: "(py_error \<times> heap) + ('a \<times> heap) \<Rightarrow> heap" where
  "store_after r = (case r of Inl (e, h') \<Rightarrow> h' | Inr (x, h') \<Rightarrow> h')"

text \<open>
  A store that holds the tree \<open>{"meet": {"teams": {"ABC": {"name": "Acme Club"}}}}\<close> at
  address 2, and the store the reshaping of it leaves.
\<close>

definition example_store :: heap where
  "example_store =
     [ODict [(KStr ''name'', VStr ''Acme Club'')],
      ODict [(KStr ''ABC'', VRef 0)],
      ODict [(KStr ''meet'', VRef 3)],
      ODict [(KStr ''teams'', VRef 1)]]"

definition example_store_after :: heap where
  "example_store_after =
     [ODict [(KStr ''name'', VStr ''Acme Club'')],
      ODict [(KStr ''ABC'', VRef 0)],
      ODict [(KStr ''meet'', VRef 3)],
      ODict [(KStr ''teams'', VRef 1)],
      ODict [(KStr ''description'', VNone), (KStr ''software'', VNone),
             (KStr ''date_created'', VNone), (KStr ''licensee'', VNone)],
      ODict [], ODict [(KStr ''teams'', VRef 1)], ODict [], OList [VRef 9],
      ODict [(KStr ''name'', VStr ''Acme Club''), (KStr ''code'', VStr ''ABC'')],
      ODict [], ODict [], OList [], ODict [], ODict [], OList [],
      ODict [(KStr ''name'', VNone), (KStr ''facility'', VNone),
             (KStr ''start_date'', VNone), (KStr ''end_date'', VNone),
             (KStr ''altitude'', VNone), (KStr ''country'', VNone),
             (KStr ''masters'', VNone), (KStr ''type'', VNone),
             (KStr ''course'', VNone), (KStr ''teams'', VRef 8),
             (KStr ''swimmers'', VRef 12), (KStr ''events'', VRef 15)],
      ODict [(KStr ''teams'', VRef 8), (KStr ''swimmers'', VRef 12),
             (KStr ''events'', VRef 15)],
      ODict [],
      ODict [(KStr ''file'', VRef 18), (KStr ''meet'', VRef 17)]]"

text \<open>
  A store that holds, at address 5, a tree with the team of \<open>example_store\<close> and a
  swimmer under the key U+00B2 (superscript two), and the store the reshaping leaves
  when it raises \<open>ValueError\<close> at that key: the teams were reshaped before.
\<close>

definition example_store_raising :: heap where
  "example_store_raising =
     [ODict [(KStr ''name'', VStr ''Acme Club'')],
      ODict [(KStr ''ABC'', VRef 0)],
      ODict [],
      ODict [(KStr [CHR 0xB2], VRef 2)],
      ODict [(KStr ''teams'', VRef 1), (KStr ''swimmers'', VRef 3)],
      ODict [(KStr ''meet'', VRef 4)]]"

definition example_store_raising_after :: heap where
  "example_store_raising_after =
     [ODict [(KStr ''name'', VStr ''Acme Club'')],
      ODict [(KStr ''ABC'', VRef 0)],
      ODict [],
      ODict [(KStr [CHR 0xB2], VRef 2)],
      ODict [(KStr ''teams'', VRef 1), (KStr ''swimmers'', VRef 3)],
      ODict [(KStr ''meet'', VRef 4)],
      ODict [(KStr ''description'', VNone), (KStr ''software'', VNone),
             (KStr ''date_created'', VNone), (KStr ''licensee'', VNone)],
      ODict [],
      ODict [(KStr ''teams'', VRef 1), (KStr ''swimmers'', VRef 3)],
      ODict [], OList [VRef 11],
      ODict [(KStr ''name'', VStr ''Acme Club''), (KStr ''code'', VStr ''ABC'')],
      ODict [], OList [], ODict []]"

section \<open>Stores and trees\<close>

text \<open>
  What a value in a store stands for.  \<open>rep_in S h v t\<close>: in the store \<open>h\<close> the value
  \<open>v\<close> is the tree \<open>t\<close> of the first model, and every object read on the way is at an
  address in \<open>S\<close>.  A scalar is itself; a reference is the list, or the dictionary, of
  what its elements are, with the same keys in the same order.
\<close>

inductive rep_in :: "addr set \<Rightarrow> heap \<Rightarrow> hval \<Rightarrow> pyval \<Rightarrow> bool"
  for S :: "addr set" and h :: heap where
  rep_None: "rep_in S h VNone PNone"
| rep_Bool: "rep_in S h (VBool b) (PBool b)"
| rep_Int: "rep_in S h (VInt n) (PInt n)"
| rep_Str: "rep_in S h (VStr s) (PStr s)"
| rep_List: "a \<in> S \<Longrightarrow> h_lookup h a = Some (OList vs) \<Longrightarrow> list_all2 (rep_in S h) vs ts \<Longrightarrow>
     rep_in S h (VRef a) (PList ts)"
| rep_Dict: "a \<in> S \<Longrightarrow> h_lookup h a = Some (ODict d) \<Longrightarrow>
     list_all2 (\<lambda>kv kt. fst kv = fst kt \<and> rep_in S h (snd kv) (snd kt)) d td \<Longrightarrow>
     rep_in S h (VRef a) (PDict td)"

text \<open>
  The same for a key with its value, for the items of a dictionary, for the elements
  of a list, and for a reference to a list or to a dictionary given by its elements.
\<close>

definition item_rep :: "addr set \<Rightarrow> heap \<Rightarrow> pykey \<times> hval \<Rightarrow> pykey \<times> pyval \<Rightarrow> bool" where
  "item_rep S h kv kt = (fst kv = fst kt \<and> rep_in S h (snd kv) (snd kt))"

definition items_rep :: "addr set \<Rightarrow> heap \<Rightarrow> (pykey \<times> hval) list \<Rightarrow> pydict \<Rightarrow> bool" where
  "items_rep S h d td =
     list_all2 (\<lambda>kv kt. fst kv = fst kt \<and> rep_in S h (snd kv) (snd kt)) d td"

definition list_rep :: "addr set \<Rightarrow> heap \<Rightarrow> hval list \<Rightarrow> pyval list \<Rightarrow> bool" where
  "list_rep S h vs ts = list_all2 (rep_in S h) vs ts"

definition rep_list_in :: "addr set \<Rightarrow> heap \<Rightarrow> hval \<Rightarrow> pyval list \<Rightarrow> bool" where
  "rep_list_in S h v ts = rep_in S h v (PList ts)"

definition rep_dict_in :: "addr set \<Rightarrow> heap \<Rightarrow> hval \<Rightarrow> pydict \<Rightarrow> bool" where
  "rep_dict_in S h v td = rep_in S h v (PDict td)"

text \<open>\<open>represents h v t\<close>: in the store \<open>h\<close> the value \<open>v\<close> is the tree \<open>t\<close>.\<close>

definition represents :: "heap \<Rightarrow> hval \<Rightarrow> pyval \<Rightarrow> bool" where
  "represents h v t = rep_in {..<length h} h v t"

text \<open>\<open>extends h h'\<close>: the store \<open>h'\<close> is \<open>h\<close>, unchanged, followed by new objects.\<close>

definition extends :: "heap \<Rightarrow> heap \<Rightarrow> bool" where
  "extends h h' = (take (length h) h' = h)"

text \<open>
  \<open>sim R S h m f\<close>: run in the store \<open>h\<close>, the statement \<open>m\<close> does what the expression
  \<open>f\<close> of the first model does.  It raises the exception \<open>f\<close> raises; or it returns, in
  a store that extends \<open>h\<close>, a value that \<open>R\<close> relates to the value of \<open>f\<close>, reading
  objects of \<open>S\<close> and new objects only.
\<close>

definition sim :: "(addr set \<Rightarrow> heap \<Rightarrow> 'a \<Rightarrow> 'b \<Rightarrow> bool) \<Rightarrow> addr set \<Rightarrow> heap \<Rightarrow>
    'a run \<Rightarrow> py_error + 'b \<Rightarrow> bool" where
  "sim R S h m f =
     (case m h of
        Inl (e, h') \<Rightarrow> f = Inl e
      | Inr (x, h') \<Rightarrow> extends h h' \<and> (\<exists>y. f = Inr y \<and> R (S \<union> {length h..<length h'}) h' x y))"

text \<open>The empty dictionary and the empty list, as objects and as trees.\<close>

definition empty_pair :: "hobj \<Rightarrow> pyval \<Rightarrow> bool" where
  "empty_pair ob t = (ob = ODict [] \<and> t = PDict [] \<or> ob = OList [] \<and> t = PList [])"

text \<open>
  The tree that \<open>example_store\<close> holds at address 2, a second store that holds the same
  tree at address 1, among other objects and in another order, and the reshaping of
  the tree.
\<close>

definition example_store_tree :: pydict where
  "example_store_tree =
     [(KStr ''meet'', PDict [(KStr ''teams'',
         PDict [(KStr ''ABC'', PDict [(KStr ''name'', PStr ''Acme Club'')])])])]"

definition example_store_moved :: heap where
  "example_store_moved =
     [OList [],
      ODict [(KStr ''meet'', VRef 2)],
      ODict [(KStr ''teams'', VRef 4)],
      ODict [(KStr ''name'', VStr ''Acme Club'')],
      ODict [(KStr ''ABC'', VRef 3)]]"

definition example_store_output :: pydict where
  "example_store_output =
     [(KStr ''file'', PDict []),
      (KStr ''meet'', PDict
         [(KStr ''teams'', PList [PDict [(KStr ''name'', PStr ''Acme Club''),
                                         (KStr ''code'', PStr ''ABC'')]]),
          (KStr ''swimmers'', PList []),
          (KStr ''events'', PList [])])]"

section \<open>Reference notions for the statements\<close>



text \<open>
  The rank the ordering step gives an identifier: its value when it is parseable as an
  integer, and \<open>10\<^sup>9\<close> otherwise.
\<close>

definition identifier_rank :: "string \<Rightarrow> int" where
  "identifier_rank s = (case py_int s of Some n \<Rightarrow> n | None \<Rightarrow> 10 ^ 9)"

text \<open>
  Every phase-scoped plain field of an entry prunes away (is \<open>None\<close> or an empty
  dictionary).
\<close>

definition leg_fields_prune :: "pydict \<Rightarrow> string \<Rightarrow> bool" where
  "leg_fields_prune entry prefix =
     (prunable (py_get entry (prefix @ ''_time'')) \<and>
      prunable (py_get entry (prefix @ ''_course'')) \<and>
      prunable (py_get entry (prefix @ ''_time_code'')) \<and>
      prunable (py_get entry (prefix @ ''_heat'')) \<and>
      prunable (py_get entry (prefix @ ''_lane'')) \<and>
      prunable (py_get entry (prefix @ ''_heat_place'')) \<and>
      prunable (py_get entry (prefix @ ''_overall_place'')) \<and>
      prunable (py_get entry (prefix @ ''_date'')) \<and>
      prunable (py_get entry (prefix @ ''_splits'')))"

text \<open>
  The disqualification detail of a phase prunes away: there is no disqualification
  sub-record (the field is missing, \<open>None\<close> or otherwise falsy), or its \<open>code\<close> and
  \<open>info_str\<close> both prune away.
\<close>

definition dq_prunes :: "pyval \<Rightarrow> bool" where
  "dq_prunes dq_info =
     (\<not> truthy dq_info \<or>
      (case dq_info of
         PDict d \<Rightarrow> prunable (py_get d ''code'') \<and> prunable (py_get d ''info_str'')
       | _ \<Rightarrow> False))"

text \<open>The four seed fields of an entry prune away.\<close>

definition seed_fields_prune :: "pydict \<Rightarrow> bool" where
  "seed_fields_prune entry =
     (prunable (py_get entry ''seed_time'') \<and>
      prunable (py_get entry ''seed_course'') \<and>
      prunable (py_get entry ''converted_seed_time'') \<and>
      prunable (py_get entry ''converted_seed_time_course''))"

text \<open>
  A record that was pruned and did not collapse: a non-empty dictionary none of whose
  fields is \<open>None\<close> or an empty dictionary.
\<close>

definition pruned_record :: "pyval \<Rightarrow> bool" where
  "pruned_record v =
     (case v of PDict d \<Rightarrow> d \<noteq> [] \<and> list_all (\<lambda>kv. \<not> prunable (snd kv)) d | _ \<Rightarrow> False)"

text \<open>The field \<open>k\<close> of a record, when it is present, satisfies \<open>P\<close>.\<close>

definition field_ok :: "(pyval \<Rightarrow> bool) \<Rightarrow> pydict \<Rightarrow> string \<Rightarrow> bool" where
  "field_ok P d k = (case map_of d (KStr k) of None \<Rightarrow> True | Some v \<Rightarrow> P v)"

text \<open>
  Pruning at every level below an event: a leg and its disqualification detail, an
  entry with its seed and legs, an event with its entries.
\<close>

definition leg_pruned :: "pyval \<Rightarrow> bool" where
  "leg_pruned v =
     (pruned_record v \<and> (case v of PDict l \<Rightarrow> field_ok pruned_record l ''dq'' | _ \<Rightarrow> False))"

definition entry_pruned :: "pyval \<Rightarrow> bool" where
  "entry_pruned v =
     (pruned_record v \<and>
      (case v of
         PDict rec \<Rightarrow>
           field_ok pruned_record rec ''seed'' \<and>
           list_all (field_ok leg_pruned rec) [''prelim'', ''swimoff'', ''finals'']
       | _ \<Rightarrow> False))"

definition event_pruned :: "pyval \<Rightarrow> bool" where
  "event_pruned v =
     (pruned_record v \<and>
      (case v of
         PDict rec \<Rightarrow>
           (case map_of rec (KStr ''entries'') of
              Some (PList ens) \<Rightarrow> list_all entry_pruned ens
            | _ \<Rightarrow> False)
       | _ \<Rightarrow> False))"

text \<open>
  The fields a record always carries: the field \<open>k\<close> is present and holds a list, or a
  truth value.  An entry always carries \<open>swimmers\<close> and \<open>relay\<close>; an event always carries
  \<open>number\<close>, \<open>relay\<close> and \<open>entries\<close>, and each of its entries what an entry carries.
\<close>

definition has_list :: "pydict \<Rightarrow> string \<Rightarrow> bool" where
  "has_list d k = (case map_of d (KStr k) of Some (PList xs) \<Rightarrow> True | _ \<Rightarrow> False)"

definition has_bool :: "pydict \<Rightarrow> string \<Rightarrow> bool" where
  "has_bool d k = (case map_of d (KStr k) of Some (PBool b) \<Rightarrow> True | _ \<Rightarrow> False)"

definition entry_carries :: "pyval \<Rightarrow> bool" where
  "entry_carries v =
     (case v of PDict rec \<Rightarrow> has_list rec ''swimmers'' \<and> has_bool rec ''relay'' | _ \<Rightarrow> False)"

definition event_carries :: "pyval \<Rightarrow> bool" where
  "event_carries v =
     (case v of
        PDict rec \<Rightarrow>
          map_of rec (KStr ''number'') \<noteq> None \<and> has_bool rec ''relay'' \<and>
          (case map_of rec (KStr ''entries'') of
             Some (PList ens) \<Rightarrow> list_all entry_carries ens
           | _ \<Rightarrow> False)
      | _ \<Rightarrow> False)"

section \<open>An example tree\<close>

text \<open>
  A small meet: one team, one swimmer under an integer id, and one event with one entry
  that has a finals time and a disqualification record without content for the prelims.
\<close>

definition example_teams :: pydict where
  "example_teams =
     [(KStr ''ABC'', PDict [(KStr ''name'', PStr ''Acme Club''), (KStr ''swimmers'', PDict [])])]"

definition example_swimmers :: pydict where
  "example_swimmers = [(KInt 7, PDict [(KStr ''first_name'', PStr ''Jo'')])]"

definition example_entry :: pydict where
  "example_entry =
     [(KStr ''swimmers'', PList [PDict [(KStr ''meet_id'', PInt 7)]]),
      (KStr ''finals_time'', PStr ''25.31''),
      (KStr ''finals_course'', PStr ''SCY''),
      (KStr ''prelim_dq_info'', PDict [(KStr ''code'', PNone), (KStr ''info_str'', PNone)])]"

definition example_meet :: pydict where
  "example_meet =
     [(KStr ''name'', PStr ''Spring Open''),
      (KStr ''teams'', PDict example_teams),
      (KStr ''swimmers'', PDict example_swimmers),
      (KStr ''events'', PDict
         [(KStr ''1'', PDict [(KStr ''distance'', PInt 50),
                              (KStr ''entries'', PList [PDict example_entry])])])]"

definition example_tree :: pydict where
  "example_tree = [(KStr ''software'', PStr ''Hy-Tek''), (KStr ''meet'', PDict example_meet)]"

definition example_output :: pydict where
  "example_output =
     [(KStr ''file'', PDict [(KStr ''software'', PStr ''Hy-Tek'')]),
      (KStr ''meet'', PDict
        [(KStr ''name'', PStr ''Spring Open''),
         (KStr ''teams'', PList
            [PDict [(KStr ''name'', PStr ''Acme Club''), (KStr ''code'', PStr ''ABC'')]]),
         (KStr ''swimmers'', PList
            [PDict [(KStr ''first_name'', PStr ''Jo''), (KStr ''meet_id'', PInt 7)]]),
         (KStr ''events'', PList
            [PDict
              [(KStr ''number'', PStr ''1''), (KStr ''distance'', PInt 50),
               (KStr ''relay'', PBool False),
               (KStr ''entries'', PList
                  [PDict
                    [(KStr ''swimmers'', PList [PInt 7]),
                     (KStr ''relay'', PBool False),
                     (KStr ''finals'', PDict
                        [(KStr ''time'', PStr ''25.31''),
                         (KStr ''course'', PStr ''SCY'')])]])]])])]"

section \<open>Properties of pruning\<close>

lemma skip_iff_prunable: "(v = PNone \<or> (is_dict v \<and> \<not> truthy v)) = prunable v"
  by (cases v) (auto simp: prunable_def)

lemma dict_set_keys: "fst ` set (dict_set d k v) = insert k (fst ` set d)"
proof (induction d)
  case Nil
  show ?case by simp
next
  case (Cons p d)
  obtain k' v' where p: "p = (k', v')" by (cases p)
  show ?case
  proof (cases "k' = k")
    case True
    then show ?thesis using p by auto
  next
    case False
    then show ?thesis using p Cons.IH by auto
  qed
qed

lemma dict_set_distinct: "distinct (map fst d) \<Longrightarrow> distinct (map fst (dict_set d k v))"
proof (induction d)
  case Nil
  show ?case by simp
next
  case (Cons p d)
  obtain k' v' where p: "p = (k', v')" by (cases p)
  have "k' \<notin> fst ` set d" using Cons.prems p by simp
  then have "k' \<noteq> k \<Longrightarrow> k' \<notin> fst ` set (dict_set d k v)"
    by (simp add: dict_set_keys)
  then show ?case using Cons p by auto
qed

lemma dict_set_fresh: "k \<notin> fst ` set d \<Longrightarrow> dict_set d k v = d @ [(k, v)]"
  by (induction d) auto

lemma dict_set_values:
  "\<forall>p \<in> set d. \<not> prunable (snd p) \<Longrightarrow> \<not> prunable v \<Longrightarrow>
   \<forall>p \<in> set (dict_set d k v). \<not> prunable (snd p)"
proof (induction d)
  case Nil
  then show ?case by simp
next
  case (Cons p d)
  obtain k' v' where p: "p = (k', v')" by (cases p)
  show ?case
  proof (cases "k' = k")
    case True
    then show ?thesis using p Cons.prems by auto
  next
    case False
    then show ?thesis using p Cons by auto
  qed
qed

lemma drop_none_loop_filter:
  "distinct (map fst (r @ d)) \<Longrightarrow>
   drop_none_loop d r = r @ filter (\<lambda>kv. \<not> prunable (snd kv)) d"
proof (induction d arbitrary: r)
  case Nil
  show ?case by simp
next
  case (Cons p d)
  obtain k v where p: "p = (k, v)" by (cases p)
  show ?case
  proof (cases "prunable v")
    case True
    have "distinct (map fst (r @ d))" using Cons.prems by simp
    from Cons.IH[OF this] True p show ?thesis
      using skip_iff_prunable[of v] by auto
  next
    case False
    have fresh: "k \<notin> fst ` set r" using Cons.prems p by auto
    have "distinct (map fst ((r @ [(k, v)]) @ d))" using Cons.prems p by auto
    from Cons.IH[OF this] False p fresh show ?thesis
      using skip_iff_prunable[of v] by (auto simp: dict_set_fresh)
  qed
qed

lemma drop_none_filter:
  "distinct (map fst d) \<Longrightarrow> drop_none d = filter (\<lambda>kv. \<not> prunable (snd kv)) d"
  using drop_none_loop_filter[of "[]" d] by (simp add: drop_none_def)

lemma drop_none_loop_distinct:
  "distinct (map fst r) \<Longrightarrow> distinct (map fst (drop_none_loop d r))"
  by (induction d r rule: drop_none_loop.induct) (auto simp: dict_set_distinct)

lemma drop_none_distinct: "distinct (map fst (drop_none d))"
  by (simp add: drop_none_def drop_none_loop_distinct)

lemma drop_none_loop_values:
  "\<forall>p \<in> set r. \<not> prunable (snd p) \<Longrightarrow>
   \<forall>p \<in> set (drop_none_loop d r). \<not> prunable (snd p)"
proof (induction d r rule: drop_none_loop.induct)
  case (1 result)
  then show ?case by simp
next
  case (2 k v d result)
  show ?case
  proof (cases "prunable v")
    case True
    then show ?thesis using 2 skip_iff_prunable[of v] by auto
  next
    case False
    then have "\<forall>p \<in> set (dict_set result k v). \<not> prunable (snd p)"
      using "2.prems" dict_set_values by blast
    then show ?thesis using 2 False skip_iff_prunable[of v] by auto
  qed
qed

lemma drop_none_values: "\<forall>p \<in> set (drop_none d). \<not> prunable (snd p)"
  using drop_none_loop_values[of "[]" d] by (simp add: drop_none_def)

lemma drop_none_fixed:
  "distinct (map fst d) \<Longrightarrow> \<forall>p \<in> set d. \<not> prunable (snd p) \<Longrightarrow> drop_none d = d"
  by (simp add: drop_none_filter)

text \<open>
  Claim C5.  Pruning is idempotent: pruning a pruned mapping gives the same mapping,
  for every field-name-to-value mapping, whatever its keys and values.
\<close>

theorem drop_none_idempotent: "drop_none (drop_none r) = drop_none r"
  using drop_none_fixed[OF drop_none_distinct drop_none_values] .

section \<open>Properties of the event order\<close>

lemma str_keys_comparable:
  assumes "fst a = KStr s" "fst b = KStr t"
  shows "tuple_lt (event_key a) (event_key b) \<noteq> Inl TypeError"
  using assms by (auto simp: event_key_def split: option.splits)

text \<open>Where Python can compare two keys, it compares them as their ranks compare.\<close>

lemma tuple_lt_rank:
  "tuple_lt (event_key a) (event_key b) \<noteq> Inl TypeError \<Longrightarrow>
   tuple_lt (event_key a) (event_key b) = Inr (sort_rank a < sort_rank b)"
  by (cases "fst a"; cases "fst b")
     (auto simp: event_key_def sort_rank_def split: option.splits if_splits)

lemma sorted_events_str:
  assumes "\<forall>kv \<in> set events. \<exists>s. fst kv = KStr s"
  shows "sorted_events events = Inr (sort_key sort_rank events)"
proof -
  have "\<forall>a \<in> set events. \<forall>b \<in> set events.
           tuple_lt (event_key a) (event_key b) \<noteq> Inl TypeError"
    using assms str_keys_comparable by blast
  then show ?thesis by (simp add: sorted_events_def)
qed

lemma sorted_events_result:
  "sorted_events events = Inr out \<Longrightarrow> out = sort_key sort_rank events"
  by (auto simp: sorted_events_def split: if_splits)

lemma sort_rank_str:
  "fst kv = KStr s \<Longrightarrow>
   sort_rank kv = (case py_int s of Some n \<Rightarrow> n | None \<Rightarrow> 10 ^ 9, s)"
  by (auto simp: sort_rank_def event_key_def split: option.splits)

lemma sorted_events_ranks:
  assumes "sorted_events events = Inr out" "i < j" "j < length out"
  shows "sort_rank (out ! i) \<le> sort_rank (out ! j)"
proof -
  have out: "out = sort_key sort_rank events"
    using assms(1) by (rule sorted_events_result)
  have "sorted (map sort_rank out)" unfolding out by (rule sorted_sort_key)
  then have "map sort_rank out ! i \<le> map sort_rank out ! j"
    using assms(2,3) by (simp add: sorted_iff_nth_mono del: nth_map)
  then show ?thesis using assms(2,3) by simp
qed

lemma sorted_events_mset: "sorted_events events = Inr out \<Longrightarrow> mset out = mset events"
  by (auto dest: sorted_events_result)

lemma ordered_pair:
  assumes "sorted_events events = Inr out" "i < j" "j < length out"
    and a: "fst (out ! i) = KStr a" and b: "fst (out ! j) = KStr b"
  shows "identifier_rank a < identifier_rank b \<or>
         (identifier_rank a = identifier_rank b \<and> a \<le> b)"
  using sorted_events_ranks[OF assms(1-3)] sort_rank_str[OF a] sort_rank_str[OF b]
  by (auto simp: identifier_rank_def)

text \<open>The sort is stable: items with the same identifier keep their order.\<close>

lemma sorted_events_stable:
  assumes "\<forall>kv \<in> set events. \<exists>s. fst kv = KStr s"
  shows "filter (\<lambda>kv. fst kv = KStr s) (sort_key sort_rank events)
       = filter (\<lambda>kv. fst kv = KStr s) events"
proof -
  have eq: "(fst kv = KStr s) = (sort_rank kv = (identifier_rank s, s))"
    if "kv \<in> set events" for kv
  proof -
    from assms that obtain t where t: "fst kv = KStr t" by blast
    show ?thesis using sort_rank_str[OF t] t by (auto simp: identifier_rank_def)
  qed
  have "filter (\<lambda>kv. fst kv = KStr s) (sort_key sort_rank events)
      = filter (\<lambda>kv. sort_rank kv = (identifier_rank s, s)) (sort_key sort_rank events)"
    by (rule filter_cong) (simp_all add: eq)
  also have "\<dots> = filter (\<lambda>kv. sort_rank kv = (identifier_rank s, s)) events"
    by (rule sort_key_stable)
  also have "\<dots> = filter (\<lambda>kv. fst kv = KStr s) events"
    by (rule filter_cong) (simp_all add: eq)
  finally show ?thesis .
qed

lemma rank_cases:
  assumes "identifier_rank a < identifier_rank b \<or>
           (identifier_rank a = identifier_rank b \<and> a \<le> b)"
  shows "(\<forall>m n. py_int a = Some m \<and> py_int b = Some n \<longrightarrow> m < n \<or> (m = n \<and> a \<le> b))
       \<and> (py_int a = None \<and> py_int b = None \<longrightarrow> a \<le> b)
       \<and> (\<forall>n. py_int a = None \<and> py_int b = Some n \<longrightarrow> 10 ^ 9 < n \<or> (n = 10 ^ 9 \<and> a \<le> b))
       \<and> (\<forall>m. py_int a = Some m \<and> py_int b = None \<longrightarrow> m < 10 ^ 9 \<or> (m = 10 ^ 9 \<and> a \<le> b))"
  using assms by (auto simp: identifier_rank_def)

text \<open>
  Claim C1, as stated, fails: the identifier \<open>2000000000\<close> is parseable as an integer and
  \<open>TT\<close> is not, yet the ordering step emits \<open>TT\<close> first, because an unparseable
  identifier is ranked as the number \<open>10\<^sup>9\<close>.
\<close>

theorem sorted_events_numeric_first_counterexample:
  "py_int ''2000000000'' = Some 2000000000 \<and> py_int ''TT'' = None \<and>
   sorted_events [(KStr ''2000000000'', PNone), (KStr ''TT'', PNone)]
     = Inr [(KStr ''TT'', PNone), (KStr ''2000000000'', PNone)]"
  by code_simp

text \<open>
  Claim C1, amended.  For every mapping of event identifiers (strings) the ordering step
  returns a permutation of the items, stable on equal identifiers (a mapping has none),
  ordered by the pair (rank, identifier), where the
  rank of an identifier parseable as an integer is its value and the rank of any other
  identifier is \<open>10\<^sup>9\<close>: an identifier \<open>a\<close> emitted before an identifier \<open>b\<close> has the
  smaller rank, or the same rank and \<open>a \<le> b\<close> as strings (lexicographic, by character
  code).  Spelled out: if both are parseable then the value of \<open>a\<close> is smaller, or the
  values are equal and \<open>a \<le> b\<close>; if neither is parseable then \<open>a \<le> b\<close>; an unparseable
  \<open>a\<close> precedes a parseable \<open>b\<close> only when the value of \<open>b\<close> is above \<open>10\<^sup>9\<close>, or is
  \<open>10\<^sup>9\<close> and \<open>a \<le> b\<close>; a parseable \<open>a\<close> precedes an unparseable \<open>b\<close> only when the value
  of \<open>a\<close> is below \<open>10\<^sup>9\<close>, or is \<open>10\<^sup>9\<close> and \<open>a \<le> b\<close>.  So every parseable identifier
  of value below \<open>10\<^sup>9\<close> comes before every unparseable one, one of value above \<open>10\<^sup>9\<close>
  after them, and one of value exactly \<open>10\<^sup>9\<close> among them by string comparison.
\<close>

theorem sorted_events_order:
  assumes "\<forall>kv \<in> set events. \<exists>s. fst kv = KStr s"
  shows "\<exists>out. sorted_events events = Inr out \<and> mset out = mset events \<and>
     (\<forall>s. filter (\<lambda>kv. fst kv = KStr s) out = filter (\<lambda>kv. fst kv = KStr s) events) \<and>
     (\<forall>i j a b. i < j \<and> j < length out \<and> fst (out ! i) = KStr a \<and> fst (out ! j) = KStr b \<longrightarrow>
        (identifier_rank a < identifier_rank b \<or>
         (identifier_rank a = identifier_rank b \<and> a \<le> b))
      \<and> (\<forall>m n. py_int a = Some m \<and> py_int b = Some n \<longrightarrow> m < n \<or> (m = n \<and> a \<le> b))
      \<and> (py_int a = None \<and> py_int b = None \<longrightarrow> a \<le> b)
      \<and> (\<forall>n. py_int a = None \<and> py_int b = Some n \<longrightarrow> 10 ^ 9 < n \<or> (n = 10 ^ 9 \<and> a \<le> b))
      \<and> (\<forall>m. py_int a = Some m \<and> py_int b = None \<longrightarrow> m < 10 ^ 9 \<or> (m = 10 ^ 9 \<and> a \<le> b)))"
proof -
  let ?out = "sort_key sort_rank events"
  have res: "sorted_events events = Inr ?out"
    using assms by (rule sorted_events_str)
  have perm: "mset ?out = mset events" by simp
  have stab: "\<forall>s. filter (\<lambda>kv. fst kv = KStr s) ?out = filter (\<lambda>kv. fst kv = KStr s) events"
    using sorted_events_stable[OF assms] by blast
  have ord: "\<forall>i j a b. i < j \<and> j < length ?out \<and> fst (?out ! i) = KStr a \<and>
        fst (?out ! j) = KStr b \<longrightarrow>
        (identifier_rank a < identifier_rank b \<or>
         (identifier_rank a = identifier_rank b \<and> a \<le> b))
      \<and> (\<forall>m n. py_int a = Some m \<and> py_int b = Some n \<longrightarrow> m < n \<or> (m = n \<and> a \<le> b))
      \<and> (py_int a = None \<and> py_int b = None \<longrightarrow> a \<le> b)
      \<and> (\<forall>n. py_int a = None \<and> py_int b = Some n \<longrightarrow> 10 ^ 9 < n \<or> (n = 10 ^ 9 \<and> a \<le> b))
      \<and> (\<forall>m. py_int a = Some m \<and> py_int b = None \<longrightarrow> m < 10 ^ 9 \<or> (m = 10 ^ 9 \<and> a \<le> b))"
  proof (intro allI impI)
    fix i j a b
    assume h: "i < j \<and> j < length ?out \<and> fst (?out ! i) = KStr a \<and> fst (?out ! j) = KStr b"
    then have "i < j" "j < length ?out" "fst (?out ! i) = KStr a" "fst (?out ! j) = KStr b"
      by simp_all
    from ordered_pair[OF res this]
    have r: "identifier_rank a < identifier_rank b \<or>
         (identifier_rank a = identifier_rank b \<and> a \<le> b)" .
    from r rank_cases[OF r]
    show "(identifier_rank a < identifier_rank b \<or>
         (identifier_rank a = identifier_rank b \<and> a \<le> b))
      \<and> (\<forall>m n. py_int a = Some m \<and> py_int b = Some n \<longrightarrow> m < n \<or> (m = n \<and> a \<le> b))
      \<and> (py_int a = None \<and> py_int b = None \<longrightarrow> a \<le> b)
      \<and> (\<forall>n. py_int a = None \<and> py_int b = Some n \<longrightarrow> 10 ^ 9 < n \<or> (n = 10 ^ 9 \<and> a \<le> b))
      \<and> (\<forall>m. py_int a = Some m \<and> py_int b = None \<longrightarrow> m < 10 ^ 9 \<or> (m = 10 ^ 9 \<and> a \<le> b))"
      by (rule conjI)
  qed
  from res perm stab ord show ?thesis by blast
qed

theorem sorted_events_order_witness:
  "(\<exists>out. sorted_events [(KStr ''3'', PNone), (KStr ''TT'', PNone), (KStr ''1'', PNone),
                         (KStr ''1000000000'', PNone), (KStr ''0A'', PNone)] = Inr out \<and>
      mset out = mset [(KStr ''3'', PNone), (KStr ''TT'', PNone), (KStr ''1'', PNone),
                       (KStr ''1000000000'', PNone), (KStr ''0A'', PNone)] \<and>
     (\<forall>s. filter (\<lambda>kv. fst kv = KStr s) out
          = filter (\<lambda>kv. fst kv = KStr s)
              [(KStr ''3'', PNone), (KStr ''TT'', PNone), (KStr ''1'', PNone),
               (KStr ''1000000000'', PNone), (KStr ''0A'', PNone)]) \<and>
     (\<forall>i j a b. i < j \<and> j < length out \<and> fst (out ! i) = KStr a \<and> fst (out ! j) = KStr b \<longrightarrow>
        (identifier_rank a < identifier_rank b \<or>
         (identifier_rank a = identifier_rank b \<and> a \<le> b))
      \<and> (\<forall>m n. py_int a = Some m \<and> py_int b = Some n \<longrightarrow> m < n \<or> (m = n \<and> a \<le> b))
      \<and> (py_int a = None \<and> py_int b = None \<longrightarrow> a \<le> b)
      \<and> (\<forall>n. py_int a = None \<and> py_int b = Some n \<longrightarrow> 10 ^ 9 < n \<or> (n = 10 ^ 9 \<and> a \<le> b))
      \<and> (\<forall>m. py_int a = Some m \<and> py_int b = None \<longrightarrow> m < 10 ^ 9 \<or> (m = 10 ^ 9 \<and> a \<le> b)))) \<and>
   sorted_events [(KStr ''3'', PNone), (KStr ''TT'', PNone), (KStr ''1'', PNone),
                  (KStr ''1000000000'', PNone), (KStr ''0A'', PNone)]
     = Inr [(KStr ''1'', PNone), (KStr ''3'', PNone), (KStr ''0A'', PNone),
            (KStr ''1000000000'', PNone), (KStr ''TT'', PNone)]"
proof -
  have h: "\<forall>kv \<in> set [(KStr ''3'', PNone), (KStr ''TT'', PNone), (KStr ''1'', PNone),
                       (KStr ''1000000000'', PNone), (KStr ''0A'', PNone)].
      \<exists>s. fst kv = KStr s" by simp
  have run: "sorted_events [(KStr ''3'', PNone), (KStr ''TT'', PNone), (KStr ''1'', PNone),
                  (KStr ''1000000000'', PNone), (KStr ''0A'', PNone)]
     = Inr [(KStr ''1'', PNone), (KStr ''3'', PNone), (KStr ''0A'', PNone),
            (KStr ''1000000000'', PNone), (KStr ''TT'', PNone)]"
    by code_simp
  from sorted_events_order[OF h] run show ?thesis by (rule conjI)
qed

section \<open>The error monad, loops and lookups\<close>

lemma bind_err_Inr: "bind_err m f = Inr y \<Longrightarrow> \<exists>x. m = Inr x \<and> f x = Inr y"
  by (cases m) (auto simp: bind_err_def)

lemma bind_err_simps [simp]: "bind_err (Inr x) f = f x" "bind_err (Inl e) f = Inl e"
  by (simp_all add: bind_err_def)

lemma map_err_Inr:
  "map_err f xs = Inr ys \<Longrightarrow> length ys = length xs \<and> (\<forall>i < length xs. f (xs ! i) = Inr (ys ! i))"
proof (induction xs arbitrary: ys)
  case Nil
  then show ?case by simp
next
  case (Cons x xs)
  from Cons.prems obtain y ys' where y: "f x = Inr y" and ys': "map_err f xs = Inr ys'"
    and ys: "ys = y # ys'"
    by (auto split: sum.splits)
  from Cons.IH[OF ys'] y ys show ?case
    by (auto simp: nth_Cons split: nat.splits)
qed

lemma map_err_total:
  "\<forall>x \<in> set xs. \<exists>y. f x = Inr y \<Longrightarrow> \<exists>ys. map_err f xs = Inr ys"
  by (induction xs) auto

lemma map_of_drop_none:
  assumes "distinct (map fst d)"
  shows "map_of (drop_none d) k =
     (case map_of d k of None \<Rightarrow> None | Some v \<Rightarrow> if prunable v then None else Some v)"
  unfolding drop_none_filter[OF assms] using assms
  by (induction d) (auto split: option.splits simp: map_of_eq_None_iff image_iff)

lemma py_get_drop_none:
  assumes "distinct (map fst d)"
  shows "py_get (drop_none d) k = (if prunable (py_get d k) then PNone else py_get d k)"
  by (auto simp: py_get_def py_get_default_def map_of_drop_none[OF assms] prunable_def split: option.splits)

lemma post_process_Inr:
  assumes "post_process parsed = Inr out"
  shows "\<exists>meet teams teams_list swimmers swimmers_list events ordered events_list.
     py_dict (py_get_default parsed ''meet'' (PDict [])) = Inr meet \<and>
     py_items (py_or (py_get_default meet ''teams'' (PDict [])) (PDict [])) = Inr teams \<and>
     map_err reshape_team teams = Inr teams_list \<and>
     py_items (py_or (py_get_default meet ''swimmers'' (PDict [])) (PDict [])) = Inr swimmers \<and>
     map_err reshape_swimmer swimmers = Inr swimmers_list \<and>
     py_items (py_or (py_get_default meet ''events'' (PDict [])) (PDict [])) = Inr events \<and>
     sorted_events events = Inr ordered \<and>
     map_err reshape_event ordered = Inr events_list \<and>
     py_get out ''file'' = PDict (drop_none
        [(KStr ''description'', py_get parsed ''file_description''),
         (KStr ''software'', py_get parsed ''software''),
         (KStr ''date_created'', py_get parsed ''date_created''),
         (KStr ''licensee'', py_get parsed ''licensee'')]) \<and>
     py_get out ''meet'' = PDict (drop_none
             [(KStr ''name'', py_get meet ''name''),
              (KStr ''facility'', py_get meet ''facility''),
              (KStr ''start_date'', py_get meet ''start_date''),
              (KStr ''end_date'', py_get meet ''end_date''),
              (KStr ''altitude'', py_get meet ''altitude''),
              (KStr ''country'', py_get meet ''country''),
              (KStr ''masters'', py_get meet ''masters''),
              (KStr ''type'', py_get meet ''type_''),
              (KStr ''course'', py_get meet ''course''),
              (KStr ''teams'', PList teams_list),
              (KStr ''swimmers'', PList swimmers_list),
              (KStr ''events'', PList events_list)]) \<and>
     map fst out = [KStr ''file'', KStr ''meet'']"
  using assms unfolding post_process_def Let_def
  by (auto dest!: bind_err_Inr simp: py_get_def py_get_default_def)

section \<open>Swimmer ids\<close>


















lemma coerce_superscript: "coerce_meet_id (KStr [CHR 0xB2]) = Inl ValueError"
  by code_simp

lemma map_of_dict_set:
  "map_of (dict_set d k v) k' = (if k' = k then Some v else map_of d k')"
  by (induction d) auto

lemma py_get_dict_set: "py_get (dict_set d (KStr k) v) k = v"
  by (simp add: py_get_def py_get_default_def map_of_dict_set)

lemma py_get_default_of_get:
  "py_get d k = PDict x \<Longrightarrow> py_get_default d k dflt = PDict x"
  by (auto simp: py_get_def py_get_default_def split: option.splits)

lemma py_or_dict: "py_or (PDict x) (PDict []) = PDict x"
  by (cases x) (simp_all add: py_or_def)


lemma meet_out_lists:
  "py_get (drop_none
             [(KStr ''name'', a1), (KStr ''facility'', a2), (KStr ''start_date'', a3),
              (KStr ''end_date'', a4), (KStr ''altitude'', a5), (KStr ''country'', a6),
              (KStr ''masters'', a7), (KStr ''type'', a8), (KStr ''course'', a9),
              (KStr ''teams'', PList tml), (KStr ''swimmers'', PList sl),
              (KStr ''events'', PList el)]) ''teams'' = PList tml"
  "py_get (drop_none
             [(KStr ''name'', a1), (KStr ''facility'', a2), (KStr ''start_date'', a3),
              (KStr ''end_date'', a4), (KStr ''altitude'', a5), (KStr ''country'', a6),
              (KStr ''masters'', a7), (KStr ''type'', a8), (KStr ''course'', a9),
              (KStr ''teams'', PList tml), (KStr ''swimmers'', PList sl),
              (KStr ''events'', PList el)]) ''swimmers'' = PList sl"
  "py_get (drop_none
             [(KStr ''name'', a1), (KStr ''facility'', a2), (KStr ''start_date'', a3),
              (KStr ''end_date'', a4), (KStr ''altitude'', a5), (KStr ''country'', a6),
              (KStr ''masters'', a7), (KStr ''type'', a8), (KStr ''course'', a9),
              (KStr ''teams'', PList tml), (KStr ''swimmers'', PList sl),
              (KStr ''events'', PList el)]) ''events'' = PList el"
  by (simp_all add: py_get_drop_none) (simp_all add: py_get_def py_get_default_def prunable_def)




section \<open>Swimmer references of an entry\<close>

lemma py_get_default_list:
  "py_get d k = PList x \<Longrightarrow> py_get_default d k dflt = PList x"
  by (auto simp: py_get_def py_get_default_def split: option.splits)

lemma py_or_list: "py_or (PList x) (PList []) = PList x"
  by (cases x) (simp_all add: py_or_def)

lemma swimmer_ids_Inr:
  assumes "swimmer_ids entry = Inr ids" and "py_get entry ''swimmers'' = PList ss"
  shows "length ids = length ss \<and>
     (\<forall>i < length ss. \<exists>s. ss ! i = PDict s \<and> ids ! i = py_get s ''meet_id'')"
proof -
  have "map_err (\<lambda>s. obj_get s ''meet_id'') ss = Inr ids"
    using assms by (simp add: swimmer_ids_def py_get_default_list py_or_list)
  from map_err_Inr[OF this] have len: "length ids = length ss"
    and each: "\<forall>i < length ss. obj_get (ss ! i) ''meet_id'' = Inr (ids ! i)" by simp_all
  have "\<exists>s. ss ! i = PDict s \<and> ids ! i = py_get s ''meet_id''" if "i < length ss" for i
    using each that by (cases "ss ! i") (auto simp: obj_get_def)
  with len show ?thesis by blast
qed

lemma entry_out_swimmers:
  "py_get (drop_none
            [(KStr ''swimmers'', PList ids), (KStr ''relay'', b), (KStr ''seed'', c),
             (KStr ''prelim'', d), (KStr ''swimoff'', e), (KStr ''finals'', f),
             (KStr ''event_number'', g)]) ''swimmers'' = PList ids"
  by (simp add: py_get_drop_none) (simp add: py_get_def py_get_default_def prunable_def)

lemma reshape_entry_Inr:
  assumes "reshape_entry (PDict entry) = Inr out"
  shows "\<exists>ids prelim swimoff finals.
     swimmer_ids entry = Inr ids \<and>
     build_leg entry ''prelim'' = Inr prelim \<and>
     build_leg entry ''swimoff'' = Inr swimoff \<and>
     build_leg entry ''finals'' = Inr finals \<and>
     out = PDict (drop_none
            [(KStr ''swimmers'', PList ids),
             (KStr ''relay'', PBool (truthy (py_get_default entry ''relay'' (PBool False)))),
             (KStr ''seed'', py_or (PDict (build_seed entry)) PNone),
             (KStr ''prelim'', prelim),
             (KStr ''swimoff'', swimoff),
             (KStr ''finals'', finals),
             (KStr ''event_number'', py_get entry ''event_number'')])"
  using assms unfolding reshape_entry_def
  by (auto dest!: bind_err_Inr)

text \<open>
  Claim C6.  For every entry that is reshaped, the \<open>swimmers\<close> field of the entry
  record is the sequence of the \<open>meet_id\<close> values of the entry's embedded swimmer
  records: one id per record, in the source order; e.g. two records with \<open>meet_id\<close> 5
  and 12 give the list \<open>[5, 12]\<close>.
\<close>

theorem entry_swimmer_ids:
  assumes "reshape_entry (PDict entry) = Inr out"
    and "py_get entry ''swimmers'' = PList ss"
  shows "\<exists>rec ids. out = PDict rec \<and> py_get rec ''swimmers'' = PList ids \<and>
     length ids = length ss \<and>
     (\<forall>i < length ss. \<exists>s. ss ! i = PDict s \<and> ids ! i = py_get s ''meet_id'')"
proof -
  from reshape_entry_Inr[OF assms(1)] obtain ids prelim swimoff finals where
    ids: "swimmer_ids entry = Inr ids" and
    out: "out = PDict (drop_none
            [(KStr ''swimmers'', PList ids),
             (KStr ''relay'', PBool (truthy (py_get_default entry ''relay'' (PBool False)))),
             (KStr ''seed'', py_or (PDict (build_seed entry)) PNone),
             (KStr ''prelim'', prelim),
             (KStr ''swimoff'', swimoff),
             (KStr ''finals'', finals),
             (KStr ''event_number'', py_get entry ''event_number'')])"
    by blast
  from swimmer_ids_Inr[OF ids assms(2)] out show ?thesis
    by (simp add: entry_out_swimmers)
qed

theorem entry_swimmer_ids_witness:
  "reshape_entry (PDict [(KStr ''swimmers'',
       PList [PDict [(KStr ''meet_id'', PInt 5), (KStr ''first_name'', PStr ''Al'')],
              PDict [(KStr ''meet_id'', PInt 12)]])])
     = Inr (PDict [(KStr ''swimmers'', PList [PInt 5, PInt 12]), (KStr ''relay'', PBool False)]) \<and>
   (\<exists>rec ids.
      PDict [(KStr ''swimmers'', PList [PInt 5, PInt 12]), (KStr ''relay'', PBool False)] = PDict rec \<and>
      py_get rec ''swimmers'' = PList ids \<and>
      length ids = length [PDict [(KStr ''meet_id'', PInt 5), (KStr ''first_name'', PStr ''Al'')],
              PDict [(KStr ''meet_id'', PInt 12)]] \<and>
      (\<forall>i < length [PDict [(KStr ''meet_id'', PInt 5), (KStr ''first_name'', PStr ''Al'')],
              PDict [(KStr ''meet_id'', PInt 12)]].
         \<exists>s. [PDict [(KStr ''meet_id'', PInt 5), (KStr ''first_name'', PStr ''Al'')],
              PDict [(KStr ''meet_id'', PInt 12)]] ! i = PDict s \<and>
             ids ! i = py_get s ''meet_id''))"
proof -
  have run: "reshape_entry (PDict [(KStr ''swimmers'',
       PList [PDict [(KStr ''meet_id'', PInt 5), (KStr ''first_name'', PStr ''Al'')],
              PDict [(KStr ''meet_id'', PInt 12)]])])
     = Inr (PDict [(KStr ''swimmers'', PList [PInt 5, PInt 12]), (KStr ''relay'', PBool False)])"
    by code_simp
  have sw: "py_get [(KStr ''swimmers'',
       PList [PDict [(KStr ''meet_id'', PInt 5), (KStr ''first_name'', PStr ''Al'')],
              PDict [(KStr ''meet_id'', PInt 12)]])] ''swimmers''
     = PList [PDict [(KStr ''meet_id'', PInt 5), (KStr ''first_name'', PStr ''Al'')],
              PDict [(KStr ''meet_id'', PInt 12)]]"
    by code_simp
  from entry_swimmer_ids[OF run sw] run show ?thesis by blast
qed

section \<open>Empty lists are kept\<close>

lemma prunable_iff: "(\<not> prunable v) = (v \<noteq> PNone \<and> v \<noteq> PDict [])"
  by (simp add: prunable_def)

lemma drop_none_only_prunable:
  assumes "distinct (map fst d)"
  shows "drop_none d = filter (\<lambda>kv. snd kv \<noteq> PNone \<and> snd kv \<noteq> PDict []) d"
  using assms by (simp add: drop_none_filter prunable_iff)

lemma drop_none_keeps_empty_list:
  assumes "distinct (map fst d)" and "map_of d k = Some (PList [])"
  shows "map_of (drop_none d) k = Some (PList [])"
  by (simp add: map_of_drop_none[OF assms(1)] assms(2) prunable_def)

lemma py_get_Nil: "py_get [] k = PNone"
  by (simp add: py_get_def py_get_default_def)

lemma py_get_Cons: "py_get ((k', v) # d) k = (if k' = KStr k then v else py_get d k)"
  by (simp add: py_get_def py_get_default_def)

lemma falsy_or_list:
  assumes "\<not> truthy (py_get d k)"
  shows "py_or (py_get_default d k (PList [])) (PList []) = PList []"
  using assms by (auto simp: py_get_def py_get_default_def py_or_def split: option.splits)

lemma falsy_or_dict:
  assumes "\<not> truthy (py_get d k)"
  shows "py_or (py_get_default d k (PDict [])) (PDict []) = PDict []"
  using assms by (auto simp: py_get_def py_get_default_def py_or_def split: option.splits)

lemma py_get_dict_set_other:
  "k' \<noteq> k \<Longrightarrow> py_get (dict_set d (KStr k) v) k' = py_get d k'"
  "k' \<noteq> k \<Longrightarrow> py_get_default (dict_set d (KStr k) v) k' x = py_get_default d k' x"
  by (simp_all add: py_get_def py_get_default_def map_of_dict_set)

lemma event_out_entries:
  "map_of (drop_none
       [(KStr ''number'', a1), (KStr ''distance'', a2), (KStr ''stroke'', a3),
        (KStr ''course'', a4), (KStr ''date'', a5), (KStr ''fee'', a6),
        (KStr ''gender'', a7), (KStr ''gender_age'', a8), (KStr ''age_min'', a9),
        (KStr ''age_max'', a10), (KStr ''open'', a11), (KStr ''relay'', a12),
        (KStr ''relay_team_id'', a13), (KStr ''relay_swim_team_code'', a14),
        (KStr ''entries'', PList es)]) (KStr ''entries'') = Some (PList es)"
  by (simp add: map_of_drop_none) (simp add: prunable_def)

lemma event_without_entries:
  assumes "\<not> truthy (py_get event ''entries'')"
  shows "\<exists>rec. reshape_event (n, PDict event) = Inr (PDict rec) \<and>
     map_of rec (KStr ''entries'') = Some (PList [])"
proof -
  have "\<not> truthy (py_get (dict_set event (KStr ''number'') (key_val n)) ''entries'')"
    using assms by (simp add: py_get_dict_set_other)
  from falsy_or_list[OF this] show ?thesis
    unfolding reshape_event_def by (simp add: Let_def event_out_entries)
qed

lemma meet_out_keys:
  "map_of (drop_none
             [(KStr ''name'', a1), (KStr ''facility'', a2), (KStr ''start_date'', a3),
              (KStr ''end_date'', a4), (KStr ''altitude'', a5), (KStr ''country'', a6),
              (KStr ''masters'', a7), (KStr ''type'', a8), (KStr ''course'', a9),
              (KStr ''teams'', PList tml), (KStr ''swimmers'', PList sl),
              (KStr ''events'', PList el)]) (KStr ''teams'') = Some (PList tml)"
  "map_of (drop_none
             [(KStr ''name'', a1), (KStr ''facility'', a2), (KStr ''start_date'', a3),
              (KStr ''end_date'', a4), (KStr ''altitude'', a5), (KStr ''country'', a6),
              (KStr ''masters'', a7), (KStr ''type'', a8), (KStr ''course'', a9),
              (KStr ''teams'', PList tml), (KStr ''swimmers'', PList sl),
              (KStr ''events'', PList el)]) (KStr ''swimmers'') = Some (PList sl)"
  "map_of (drop_none
             [(KStr ''name'', a1), (KStr ''facility'', a2), (KStr ''start_date'', a3),
              (KStr ''end_date'', a4), (KStr ''altitude'', a5), (KStr ''country'', a6),
              (KStr ''masters'', a7), (KStr ''type'', a8), (KStr ''course'', a9),
              (KStr ''teams'', PList tml), (KStr ''swimmers'', PList sl),
              (KStr ''events'', PList el)]) (KStr ''events'') = Some (PList el)"
  by (simp_all add: map_of_drop_none) (simp_all add: prunable_def)

lemma sorted_events_Nil: "sorted_events [] = Inr []"
  by (simp add: sorted_events_def)

lemma meet_without_members:
  assumes "py_dict (py_get_default parsed ''meet'' (PDict [])) = Inr meet"
    and "\<not> truthy (py_get meet ''teams'')"
    and "\<not> truthy (py_get meet ''swimmers'')"
    and "\<not> truthy (py_get meet ''events'')"
  shows "\<exists>out meet_out. post_process parsed = Inr out \<and>
     py_get out ''meet'' = PDict meet_out \<and>
     map_of meet_out (KStr ''teams'') = Some (PList []) \<and>
     map_of meet_out (KStr ''swimmers'') = Some (PList []) \<and>
     map_of meet_out (KStr ''events'') = Some (PList [])"
  unfolding post_process_def Let_def
  by (simp add: assms(1) falsy_or_dict[OF assms(2)] falsy_or_dict[OF assms(3)]
      falsy_or_dict[OF assms(4)] py_items_def sorted_events_Nil meet_out_keys py_get_Cons)

text \<open>
  Claim C10.  Pruning removes only the fields whose value is \<open>None\<close> or an empty
  dictionary: a field whose value is the empty list is retained.  So an event without
  entries is emitted with \<open>"entries": []\<close>, and a meet whose teams, swimmers and events
  are empty (or missing) is emitted with \<open>"teams": []\<close>, \<open>"swimmers": []\<close> and
  \<open>"events": []\<close>.
\<close>

theorem empty_lists_retained:
  "(distinct (map fst d) \<longrightarrow>
      drop_none d = filter (\<lambda>kv. snd kv \<noteq> PNone \<and> snd kv \<noteq> PDict []) d \<and>
      (map_of d k = Some (PList []) \<longrightarrow> map_of (drop_none d) k = Some (PList [])))
 \<and> (\<not> truthy (py_get event ''entries'') \<longrightarrow>
      (\<exists>rec. reshape_event (n, PDict event) = Inr (PDict rec) \<and>
         map_of rec (KStr ''entries'') = Some (PList [])))
 \<and> (py_dict (py_get_default parsed ''meet'' (PDict [])) = Inr meet \<and>
     \<not> truthy (py_get meet ''teams'') \<and> \<not> truthy (py_get meet ''swimmers'') \<and>
     \<not> truthy (py_get meet ''events'') \<longrightarrow>
      (\<exists>out meet_out. post_process parsed = Inr out \<and>
         py_get out ''meet'' = PDict meet_out \<and>
         map_of meet_out (KStr ''teams'') = Some (PList []) \<and>
         map_of meet_out (KStr ''swimmers'') = Some (PList []) \<and>
         map_of meet_out (KStr ''events'') = Some (PList [])))"
  using drop_none_only_prunable[of d] drop_none_keeps_empty_list[of d k]
    event_without_entries[of event n]
    meet_without_members[of parsed meet]
  by blast

theorem empty_lists_retained_witness:
  "drop_none [(KStr ''entries'', PList []), (KStr ''fee'', PNone)]
     = filter (\<lambda>kv. snd kv \<noteq> PNone \<and> snd kv \<noteq> PDict [])
         [(KStr ''entries'', PList []), (KStr ''fee'', PNone)] \<and>
   map_of (drop_none [(KStr ''entries'', PList []), (KStr ''fee'', PNone)]) (KStr ''entries'')
     = Some (PList []) \<and>
   (\<exists>rec. reshape_event (KStr ''1'', PDict [(KStr ''distance'', PInt 50)]) = Inr (PDict rec) \<and>
      map_of rec (KStr ''entries'') = Some (PList [])) \<and>
   (\<exists>out meet_out.
      post_process [(KStr ''meet'', PDict [(KStr ''name'', PStr ''Open''), (KStr ''teams'', PDict [])])]
        = Inr out \<and>
      py_get out ''meet'' = PDict meet_out \<and>
      map_of meet_out (KStr ''teams'') = Some (PList []) \<and>
      map_of meet_out (KStr ''swimmers'') = Some (PList []) \<and>
      map_of meet_out (KStr ''events'') = Some (PList []))"
proof -
  have d: "distinct (map fst [(KStr ''entries'', PList []), (KStr ''fee'', PNone)])"
    by simp
  have k: "map_of [(KStr ''entries'', PList []), (KStr ''fee'', PNone)] (KStr ''entries'')
     = Some (PList [])"
    by simp
  have e: "\<not> truthy (py_get [(KStr ''distance'', PInt 50)] ''entries'')"
    by code_simp
  have m: "py_dict (py_get_default
      [(KStr ''meet'', PDict [(KStr ''name'', PStr ''Open''), (KStr ''teams'', PDict [])])]
      ''meet'' (PDict [])) = Inr [(KStr ''name'', PStr ''Open''), (KStr ''teams'', PDict [])]"
    by code_simp
  have t: "\<not> truthy (py_get [(KStr ''name'', PStr ''Open''), (KStr ''teams'', PDict [])] ''teams'')"
    "\<not> truthy (py_get [(KStr ''name'', PStr ''Open''), (KStr ''teams'', PDict [])] ''swimmers'')"
    "\<not> truthy (py_get [(KStr ''name'', PStr ''Open''), (KStr ''teams'', PDict [])] ''events'')"
    by code_simp+
  from empty_lists_retained[of
      "[(KStr ''entries'', PList []), (KStr ''fee'', PNone)]" "KStr ''entries''"
      "[(KStr ''distance'', PInt 50)]" "KStr ''1''"
      "[(KStr ''meet'', PDict [(KStr ''name'', PStr ''Open''), (KStr ''teams'', PDict [])])]"
      "[(KStr ''name'', PStr ''Open''), (KStr ''teams'', PDict [])]"]
    d k e m t
  show ?thesis by blast
qed

section \<open>Legs, seed and disqualification detail\<close>

lemma drop_none_empty_iff:
  assumes "distinct (map fst d)"
  shows "drop_none d = [] \<longleftrightarrow> (\<forall>p \<in> set d. prunable (snd p))"
  by (simp add: drop_none_filter[OF assms] filter_empty_conv)

lemma build_dq_Inr:
  assumes "build_dq dq_info = Inr dq"
  shows "(dq = PNone \<or> (\<exists>d. dq = PDict d)) \<and> (prunable dq \<longleftrightarrow> dq_prunes dq_info)"
proof (cases "truthy dq_info")
  case False
  then show ?thesis using assms by (simp add: build_dq_def dq_prunes_def prunable_def)
next
  case True
  with assms obtain d where d: "dq_info = PDict d"
    by (cases dq_info) (auto simp: build_dq_def obj_get_def)
  have dq: "dq = PDict (drop_none [(KStr ''code'', py_get d ''code''),
                                   (KStr ''info'', py_get d ''info_str'')])"
    using assms True d by (simp add: build_dq_def obj_get_def)
  have "prunable dq \<longleftrightarrow> prunable (py_get d ''code'') \<and> prunable (py_get d ''info_str'')"
    unfolding dq by (simp add: prunable_def[of "PDict _"] drop_none_empty_iff)
  then show ?thesis using True d dq by (simp add: dq_prunes_def)
qed

lemma build_leg_Inr:
  assumes "build_leg entry prefix = Inr leg"
  shows "\<exists>dq l. build_dq (py_get entry (prefix @ ''_dq_info'')) = Inr dq \<and>
     l = drop_none
       [(KStr ''time'', py_get entry (prefix @ ''_time'')),
        (KStr ''course'', py_get entry (prefix @ ''_course'')),
        (KStr ''time_code'', py_get entry (prefix @ ''_time_code'')),
        (KStr ''dq'', dq),
        (KStr ''heat'', py_get entry (prefix @ ''_heat'')),
        (KStr ''lane'', py_get entry (prefix @ ''_lane'')),
        (KStr ''heat_place'', py_get entry (prefix @ ''_heat_place'')),
        (KStr ''overall_place'', py_get entry (prefix @ ''_overall_place'')),
        (KStr ''date'', py_get entry (prefix @ ''_date'')),
        (KStr ''splits'', py_get entry (prefix @ ''_splits''))] \<and>
     leg = (if l = [] then PNone else PDict l)"
  using assms unfolding build_leg_def Let_def
  by (auto dest!: bind_err_Inr simp: py_or_def)

lemma leg_dq_key:
  "map_of (drop_none
       [(KStr ''time'', a1), (KStr ''course'', a2), (KStr ''time_code'', a3),
        (KStr ''dq'', dq), (KStr ''heat'', a4), (KStr ''lane'', a5),
        (KStr ''heat_place'', a6), (KStr ''overall_place'', a7),
        (KStr ''date'', a8), (KStr ''splits'', a9)]) (KStr ''dq'')
   = (if prunable dq then None else Some dq)"
  by (simp add: map_of_drop_none)

lemma build_leg_absent_iff:
  assumes "build_leg entry prefix = Inr leg"
  shows "(leg = PNone \<longleftrightarrow>
            leg_fields_prune entry prefix \<and> dq_prunes (py_get entry (prefix @ ''_dq_info'')))
       \<and> leg \<noteq> PDict []
       \<and> (leg = PNone \<or> (\<exists>l. leg = PDict l))
       \<and> (dq_prunes (py_get entry (prefix @ ''_dq_info'')) \<longrightarrow>
            (\<forall>l. leg = PDict l \<longrightarrow> map_of l (KStr ''dq'') = None))"
proof -
  from build_leg_Inr[OF assms] obtain dq l where
    dq: "build_dq (py_get entry (prefix @ ''_dq_info'')) = Inr dq" and
    l: "l = drop_none
       [(KStr ''time'', py_get entry (prefix @ ''_time'')),
        (KStr ''course'', py_get entry (prefix @ ''_course'')),
        (KStr ''time_code'', py_get entry (prefix @ ''_time_code'')),
        (KStr ''dq'', dq),
        (KStr ''heat'', py_get entry (prefix @ ''_heat'')),
        (KStr ''lane'', py_get entry (prefix @ ''_lane'')),
        (KStr ''heat_place'', py_get entry (prefix @ ''_heat_place'')),
        (KStr ''overall_place'', py_get entry (prefix @ ''_overall_place'')),
        (KStr ''date'', py_get entry (prefix @ ''_date'')),
        (KStr ''splits'', py_get entry (prefix @ ''_splits''))]" and
    leg: "leg = (if l = [] then PNone else PDict l)"
    by blast
  from build_dq_Inr[OF dq] have pdq: "prunable dq \<longleftrightarrow> dq_prunes (py_get entry (prefix @ ''_dq_info''))"
    by simp
  have empty: "l = [] \<longleftrightarrow>
     leg_fields_prune entry prefix \<and> dq_prunes (py_get entry (prefix @ ''_dq_info''))"
    unfolding l by (simp add: drop_none_empty_iff leg_fields_prune_def pdq[symmetric]) blast
  have key: "map_of l (KStr ''dq'') = (if prunable dq then None else Some dq)"
    unfolding l by (rule leg_dq_key)
  show ?thesis using leg empty key pdq by auto
qed

lemma entry_out_keys:
  "map_of (drop_none
            [(KStr ''swimmers'', a), (KStr ''relay'', b), (KStr ''seed'', c),
             (KStr ''prelim'', d), (KStr ''swimoff'', e), (KStr ''finals'', f),
             (KStr ''event_number'', g)]) (KStr ''seed'') = (if prunable c then None else Some c)"
  "map_of (drop_none
            [(KStr ''swimmers'', a), (KStr ''relay'', b), (KStr ''seed'', c),
             (KStr ''prelim'', d), (KStr ''swimoff'', e), (KStr ''finals'', f),
             (KStr ''event_number'', g)]) (KStr ''prelim'') = (if prunable d then None else Some d)"
  "map_of (drop_none
            [(KStr ''swimmers'', a), (KStr ''relay'', b), (KStr ''seed'', c),
             (KStr ''prelim'', d), (KStr ''swimoff'', e), (KStr ''finals'', f),
             (KStr ''event_number'', g)]) (KStr ''swimoff'') = (if prunable e then None else Some e)"
  "map_of (drop_none
            [(KStr ''swimmers'', a), (KStr ''relay'', b), (KStr ''seed'', c),
             (KStr ''prelim'', d), (KStr ''swimoff'', e), (KStr ''finals'', f),
             (KStr ''event_number'', g)]) (KStr ''finals'') = (if prunable f then None else Some f)"
  by (simp_all add: map_of_drop_none)

lemma build_seed_empty_iff: "build_seed entry = [] \<longleftrightarrow> seed_fields_prune entry"
  by (simp add: build_seed_def drop_none_empty_iff seed_fields_prune_def)

lemma seed_or_none:
  "prunable (py_or (PDict (build_seed entry)) PNone) \<longleftrightarrow> seed_fields_prune entry"
  "py_or (PDict (build_seed entry)) PNone \<noteq> PDict []"
  using build_seed_empty_iff[of entry]
  by (auto simp: py_or_def prunable_def)

lemma leg_prunable_iff:
  assumes "build_leg entry prefix = Inr leg"
  shows "prunable leg \<longleftrightarrow> leg = PNone"
  using build_leg_absent_iff[OF assms] by (auto simp: prunable_def)

lemma reshape_entry_keys:
  assumes "reshape_entry (PDict entry) = Inr out"
  shows "\<exists>rec. out = PDict rec \<and>
     (\<forall>prefix \<in> set [''prelim'', ''swimoff'', ''finals''].
        \<exists>leg. build_leg entry prefix = Inr leg \<and>
          map_of rec (KStr prefix) = (if leg = PNone then None else Some leg)) \<and>
     (map_of rec (KStr ''seed'') = None \<longleftrightarrow> seed_fields_prune entry) \<and>
     map_of rec (KStr ''seed'') \<noteq> Some (PDict [])"
proof -
  from reshape_entry_Inr[OF assms] obtain ids prelim swimoff finals where
    p: "build_leg entry ''prelim'' = Inr prelim" and
    s: "build_leg entry ''swimoff'' = Inr swimoff" and
    f: "build_leg entry ''finals'' = Inr finals" and
    out: "out = PDict (drop_none
            [(KStr ''swimmers'', PList ids),
             (KStr ''relay'', PBool (truthy (py_get_default entry ''relay'' (PBool False)))),
             (KStr ''seed'', py_or (PDict (build_seed entry)) PNone),
             (KStr ''prelim'', prelim),
             (KStr ''swimoff'', swimoff),
             (KStr ''finals'', finals),
             (KStr ''event_number'', py_get entry ''event_number'')])"
    by blast
  show ?thesis
    unfolding out
    using p s f leg_prunable_iff[OF p] leg_prunable_iff[OF s] leg_prunable_iff[OF f]
      seed_or_none[of entry]
    by (simp add: entry_out_keys)
qed

text \<open>
  Claim C4.  For every entry and every phase prefix (in particular \<open>prelim\<close>, \<open>swimoff\<close>
  and \<open>finals\<close>) the leg builder returns \<open>None\<close> exactly when every phase-scoped field
  prunes away (the nine plain fields, and the disqualification detail: no sub-record,
  or one whose \<open>code\<close> and \<open>info_str\<close> both prune away), and it never returns an empty
  object; a leg that is \<open>None\<close> leaves no key in the entry record; a disqualification
  sub-record whose \<open>code\<close> and \<open>info_str\<close> both prune away leaves no \<open>dq\<close> key in the
  leg; and the entry record has no \<open>seed\<close> key exactly when the four seed fields prune
  away (so when they are all absent), never \<open>"seed": {}\<close>.
\<close>

theorem leg_absent_iff_fields_prune:
  "(\<forall>leg. build_leg entry prefix = Inr leg \<longrightarrow>
      (leg = PNone \<longleftrightarrow>
         leg_fields_prune entry prefix \<and> dq_prunes (py_get entry (prefix @ ''_dq_info''))) \<and>
      leg \<noteq> PDict [] \<and>
      (dq_prunes (py_get entry (prefix @ ''_dq_info'')) \<longrightarrow>
         (\<forall>l. leg = PDict l \<longrightarrow> map_of l (KStr ''dq'') = None)))
 \<and> (\<forall>out. reshape_entry (PDict entry) = Inr out \<longrightarrow>
      (\<exists>rec. out = PDict rec \<and>
         (\<forall>prefix \<in> set [''prelim'', ''swimoff'', ''finals''].
            \<exists>leg. build_leg entry prefix = Inr leg \<and>
              map_of rec (KStr prefix) = (if leg = PNone then None else Some leg)) \<and>
         (map_of rec (KStr ''seed'') = None \<longleftrightarrow> seed_fields_prune entry) \<and>
         map_of rec (KStr ''seed'') \<noteq> Some (PDict [])))"
proof (intro conjI allI impI)
  fix leg assume a: "build_leg entry prefix = Inr leg"
  from build_leg_absent_iff[OF a]
  show "leg = PNone \<longleftrightarrow>
         leg_fields_prune entry prefix \<and> dq_prunes (py_get entry (prefix @ ''_dq_info''))"
    and "leg \<noteq> PDict []"
    by simp_all
  fix l assume "dq_prunes (py_get entry (prefix @ ''_dq_info''))" "leg = PDict l"
  with build_leg_absent_iff[OF a] show "map_of l (KStr ''dq'') = None" by simp
next
  fix out assume "reshape_entry (PDict entry) = Inr out"
  from reshape_entry_keys[OF this]
  show "\<exists>rec. out = PDict rec \<and>
         (\<forall>prefix \<in> set [''prelim'', ''swimoff'', ''finals''].
            \<exists>leg. build_leg entry prefix = Inr leg \<and>
              map_of rec (KStr prefix) = (if leg = PNone then None else Some leg)) \<and>
         (map_of rec (KStr ''seed'') = None \<longleftrightarrow> seed_fields_prune entry) \<and>
         map_of rec (KStr ''seed'') \<noteq> Some (PDict [])" .
qed

theorem leg_absent_iff_fields_prune_witness:
  "build_leg
     [(KStr ''prelim_dq_info'', PDict [(KStr ''code'', PNone), (KStr ''info_str'', PNone)]),
      (KStr ''finals_time'', PStr ''25.31''), (KStr ''seed_time'', PNone)] ''prelim'' = Inr PNone \<and>
   leg_fields_prune
     [(KStr ''prelim_dq_info'', PDict [(KStr ''code'', PNone), (KStr ''info_str'', PNone)]),
      (KStr ''finals_time'', PStr ''25.31''), (KStr ''seed_time'', PNone)] ''prelim'' \<and>
   dq_prunes (py_get
     [(KStr ''prelim_dq_info'', PDict [(KStr ''code'', PNone), (KStr ''info_str'', PNone)]),
      (KStr ''finals_time'', PStr ''25.31''), (KStr ''seed_time'', PNone)] (''prelim'' @ ''_dq_info'')) \<and>
   reshape_entry (PDict
     [(KStr ''prelim_dq_info'', PDict [(KStr ''code'', PNone), (KStr ''info_str'', PNone)]),
      (KStr ''finals_time'', PStr ''25.31''), (KStr ''seed_time'', PNone)])
     = Inr (PDict [(KStr ''swimmers'', PList []), (KStr ''relay'', PBool False),
            (KStr ''finals'', PDict [(KStr ''time'', PStr ''25.31'')])]) \<and>
   (\<exists>rec. PDict [(KStr ''swimmers'', PList []), (KStr ''relay'', PBool False),
            (KStr ''finals'', PDict [(KStr ''time'', PStr ''25.31'')])] = PDict rec \<and>
      (\<forall>prefix \<in> set [''prelim'', ''swimoff'', ''finals''].
         \<exists>leg. build_leg
     [(KStr ''prelim_dq_info'', PDict [(KStr ''code'', PNone), (KStr ''info_str'', PNone)]),
      (KStr ''finals_time'', PStr ''25.31''), (KStr ''seed_time'', PNone)] prefix = Inr leg \<and>
           map_of rec (KStr prefix) = (if leg = PNone then None else Some leg)) \<and>
      (map_of rec (KStr ''seed'') = None \<longleftrightarrow> seed_fields_prune
     [(KStr ''prelim_dq_info'', PDict [(KStr ''code'', PNone), (KStr ''info_str'', PNone)]),
      (KStr ''finals_time'', PStr ''25.31''), (KStr ''seed_time'', PNone)]) \<and>
      map_of rec (KStr ''seed'') \<noteq> Some (PDict []))"
proof -
  have leg: "build_leg
     [(KStr ''prelim_dq_info'', PDict [(KStr ''code'', PNone), (KStr ''info_str'', PNone)]),
      (KStr ''finals_time'', PStr ''25.31''), (KStr ''seed_time'', PNone)] ''prelim'' = Inr PNone"
    by code_simp
  have run: "reshape_entry (PDict
     [(KStr ''prelim_dq_info'', PDict [(KStr ''code'', PNone), (KStr ''info_str'', PNone)]),
      (KStr ''finals_time'', PStr ''25.31''), (KStr ''seed_time'', PNone)])
     = Inr (PDict [(KStr ''swimmers'', PList []), (KStr ''relay'', PBool False),
            (KStr ''finals'', PDict [(KStr ''time'', PStr ''25.31'')])])"
    by code_simp
  from leg_absent_iff_fields_prune[of
     "[(KStr ''prelim_dq_info'', PDict [(KStr ''code'', PNone), (KStr ''info_str'', PNone)]),
      (KStr ''finals_time'', PStr ''25.31''), (KStr ''seed_time'', PNone)]" "''prelim''"] leg run
  show ?thesis by blast
qed

section \<open>Which records are pruned\<close>

lemma pruned_record_drop_none:
  "drop_none d \<noteq> [] \<Longrightarrow> pruned_record (PDict (drop_none d))"
  using drop_none_values[of d] by (simp add: pruned_record_def list_all_iff)

lemma build_dq_pruned:
  assumes "build_dq dq_info = Inr dq" and "\<not> prunable dq"
  shows "pruned_record dq"
proof -
  from assms(1) have "dq = PNone \<or> (\<exists>d. dq = PDict (drop_none d))"
    by (auto simp: build_dq_def dest!: bind_err_Inr split: if_splits)
  with assms(2) show ?thesis using pruned_record_drop_none by (auto simp: prunable_def)
qed

lemma build_leg_pruned:
  assumes "build_leg entry prefix = Inr leg" and "leg \<noteq> PNone"
  shows "leg_pruned leg"
proof -
  from build_leg_Inr[OF assms(1)] obtain dq l where
    dq: "build_dq (py_get entry (prefix @ ''_dq_info'')) = Inr dq" and
    l: "l = drop_none
       [(KStr ''time'', py_get entry (prefix @ ''_time'')),
        (KStr ''course'', py_get entry (prefix @ ''_course'')),
        (KStr ''time_code'', py_get entry (prefix @ ''_time_code'')),
        (KStr ''dq'', dq),
        (KStr ''heat'', py_get entry (prefix @ ''_heat'')),
        (KStr ''lane'', py_get entry (prefix @ ''_lane'')),
        (KStr ''heat_place'', py_get entry (prefix @ ''_heat_place'')),
        (KStr ''overall_place'', py_get entry (prefix @ ''_overall_place'')),
        (KStr ''date'', py_get entry (prefix @ ''_date'')),
        (KStr ''splits'', py_get entry (prefix @ ''_splits''))]" and
    leg: "leg = (if l = [] then PNone else PDict l)"
    by blast
  from leg assms(2) have ne: "l \<noteq> []" and legl: "leg = PDict l" by (auto split: if_splits)
  have 1: "pruned_record (PDict l)" using ne unfolding l by (rule pruned_record_drop_none)
  have key: "map_of l (KStr ''dq'') = (if prunable dq then None else Some dq)"
    unfolding l by (rule leg_dq_key)
  have 2: "field_ok pruned_record l ''dq''"
    using build_dq_pruned[OF dq] by (simp add: field_ok_def key)
  show ?thesis using 1 2 legl by (simp add: leg_pruned_def)
qed

lemma build_seed_pruned:
  "\<not> prunable (py_or (PDict (build_seed entry)) PNone) \<Longrightarrow>
   pruned_record (py_or (PDict (build_seed entry)) PNone)"
  using pruned_record_drop_none[of "[(KStr ''time'', py_get entry ''seed_time''),
      (KStr ''course'', py_get entry ''seed_course''),
      (KStr ''converted_time'', py_get entry ''converted_seed_time''),
      (KStr ''converted_course'', py_get entry ''converted_seed_time_course'')]"]
  by (auto simp: py_or_def build_seed_def prunable_def)

lemma entry_out_nonempty:
  "drop_none
            [(KStr ''swimmers'', PList ids), (KStr ''relay'', PBool b), (KStr ''seed'', c),
             (KStr ''prelim'', d), (KStr ''swimoff'', e), (KStr ''finals'', f),
             (KStr ''event_number'', g)] \<noteq> []"
  by (simp add: drop_none_empty_iff prunable_def)

lemma reshape_entry_pruned:
  assumes "reshape_entry e = Inr out"
  shows "entry_pruned out"
proof -
  from assms obtain entry where e: "e = PDict entry"
    by (cases e) (auto simp: reshape_entry_def)
  from reshape_entry_Inr[OF assms[unfolded e]] obtain ids prelim swimoff finals where
    p: "build_leg entry ''prelim'' = Inr prelim" and
    s: "build_leg entry ''swimoff'' = Inr swimoff" and
    f: "build_leg entry ''finals'' = Inr finals" and
    out: "out = PDict (drop_none
            [(KStr ''swimmers'', PList ids),
             (KStr ''relay'', PBool (truthy (py_get_default entry ''relay'' (PBool False)))),
             (KStr ''seed'', py_or (PDict (build_seed entry)) PNone),
             (KStr ''prelim'', prelim),
             (KStr ''swimoff'', swimoff),
             (KStr ''finals'', finals),
             (KStr ''event_number'', py_get entry ''event_number'')])"
    by blast
  have legs: "\<not> prunable prelim \<Longrightarrow> leg_pruned prelim"
    "\<not> prunable swimoff \<Longrightarrow> leg_pruned swimoff"
    "\<not> prunable finals \<Longrightarrow> leg_pruned finals"
    using build_leg_pruned[OF p] build_leg_pruned[OF s] build_leg_pruned[OF f]
    by (auto simp: prunable_def)
  show ?thesis
    unfolding out entry_pruned_def
    using legs build_seed_pruned[of entry]
    by (simp add: pruned_record_drop_none entry_out_nonempty field_ok_def entry_out_keys)
qed

lemma map_err_all:
  assumes "\<And>x y. f x = Inr y \<Longrightarrow> P y" and "map_err f xs = Inr ys"
  shows "list_all P ys"
  using assms(2)
proof (induction xs arbitrary: ys)
  case Nil
  then show ?case by simp
next
  case (Cons x xs)
  then show ?case using assms(1) by (auto split: sum.splits)
qed

lemma event_out_nonempty:
  "drop_none
       [(KStr ''number'', a1), (KStr ''distance'', a2), (KStr ''stroke'', a3),
        (KStr ''course'', a4), (KStr ''date'', a5), (KStr ''fee'', a6),
        (KStr ''gender'', a7), (KStr ''gender_age'', a8), (KStr ''age_min'', a9),
        (KStr ''age_max'', a10), (KStr ''open'', a11), (KStr ''relay'', PBool a12),
        (KStr ''relay_team_id'', a13), (KStr ''relay_swim_team_code'', a14),
        (KStr ''entries'', PList es)] \<noteq> []"
  by (simp add: drop_none_empty_iff prunable_def)

lemma reshape_event_pruned:
  assumes "reshape_event kv = Inr out"
  shows "event_pruned out"
proof -
  from assms obtain a1 a2 a3 a4 a5 a6 a7 a8 a9 a10 a11 a12 a13 a14 entries es where
    es: "map_err reshape_entry entries = Inr es" and
    out: "out = PDict (drop_none
       [(KStr ''number'', a1), (KStr ''distance'', a2), (KStr ''stroke'', a3),
        (KStr ''course'', a4), (KStr ''date'', a5), (KStr ''fee'', a6),
        (KStr ''gender'', a7), (KStr ''gender_age'', a8), (KStr ''age_min'', a9),
        (KStr ''age_max'', a10), (KStr ''open'', a11), (KStr ''relay'', PBool a12),
        (KStr ''relay_team_id'', a13), (KStr ''relay_swim_team_code'', a14),
        (KStr ''entries'', PList es)])"
    unfolding reshape_event_def Let_def by (auto dest!: bind_err_Inr)
  have "list_all entry_pruned es"
    using reshape_entry_pruned es by (rule map_err_all)
  then show ?thesis
    unfolding out event_pruned_def
    by (simp add: pruned_record_drop_none event_out_nonempty event_out_entries)
qed

lemma map_of_dict_pop:
  "map_of (dict_pop d k) k' = (if k' = k then None else map_of d k')"
  unfolding dict_pop_def by (induction d) auto

lemma reshape_team_Inr:
  assumes "reshape_team kv = Inr out"
  shows "\<exists>team rec. py_dict (snd kv) = Inr team \<and> out = PDict rec \<and>
     (\<forall>k. map_of rec k =
        (if k = KStr ''swimmers'' then None
         else if k = KStr ''code'' then Some (key_val (fst kv))
         else map_of team k))"
  using assms unfolding reshape_team_def
  by (auto dest!: bind_err_Inr simp: map_of_dict_pop map_of_dict_set)

lemma reshape_swimmer_fields:
  assumes "reshape_swimmer kv = Inr out"
  shows "\<exists>swimmer rec mid. py_dict (snd kv) = Inr swimmer \<and> out = PDict rec \<and>
     coerce_meet_id (fst kv) = Inr mid \<and>
     (\<forall>k. map_of rec k = (if k = KStr ''meet_id'' then Some mid else map_of swimmer k))"
  using assms unfolding reshape_swimmer_def
  by (auto dest!: bind_err_Inr simp: map_of_dict_set)

lemma meet_out_nonempty:
  "drop_none
             [(KStr ''name'', a1), (KStr ''facility'', a2), (KStr ''start_date'', a3),
              (KStr ''end_date'', a4), (KStr ''altitude'', a5), (KStr ''country'', a6),
              (KStr ''masters'', a7), (KStr ''type'', a8), (KStr ''course'', a9),
              (KStr ''teams'', PList tml), (KStr ''swimmers'', PList sl),
              (KStr ''events'', PList el)] \<noteq> []"
  by (simp add: drop_none_empty_iff prunable_def)

lemma reshape_entry_carries:
  assumes "reshape_entry e = Inr out"
  shows "entry_carries out"
proof -
  from assms obtain entry where e: "e = PDict entry"
    by (cases e) (auto simp: reshape_entry_def)
  from reshape_entry_Inr[OF assms[unfolded e]] obtain ids b c d e' f g where
    out: "out = PDict (drop_none
            [(KStr ''swimmers'', PList ids), (KStr ''relay'', PBool b), (KStr ''seed'', c),
             (KStr ''prelim'', d), (KStr ''swimoff'', e'), (KStr ''finals'', f),
             (KStr ''event_number'', g)])"
    by blast
  show ?thesis
    unfolding out entry_carries_def has_list_def has_bool_def
    by (simp add: map_of_drop_none) (simp add: prunable_def)
qed

lemma key_val_kept: "\<not> prunable (key_val k)"
  by (cases k) (simp_all add: prunable_def)

lemma reshape_event_carries:
  assumes "reshape_event kv = Inr out"
  shows "event_carries out"
proof -
  from assms obtain a2 a3 a4 a5 a6 a7 a8 a9 a10 a11 a12 a13 a14 entries es where
    es: "map_err reshape_entry entries = Inr es" and
    out: "out = PDict (drop_none
       [(KStr ''number'', key_val (fst kv)), (KStr ''distance'', a2), (KStr ''stroke'', a3),
        (KStr ''course'', a4), (KStr ''date'', a5), (KStr ''fee'', a6),
        (KStr ''gender'', a7), (KStr ''gender_age'', a8), (KStr ''age_min'', a9),
        (KStr ''age_max'', a10), (KStr ''open'', a11), (KStr ''relay'', PBool a12),
        (KStr ''relay_team_id'', a13), (KStr ''relay_swim_team_code'', a14),
        (KStr ''entries'', PList es)])"
    unfolding reshape_event_def Let_def by (auto dest!: bind_err_Inr simp: py_get_dict_set)
  have "list_all entry_carries es"
    using reshape_entry_carries es by (rule map_err_all)
  then show ?thesis
    unfolding out event_carries_def has_bool_def
    by (simp add: map_of_drop_none key_val_kept) (simp add: prunable_def)
qed

lemma post_process_records:
  assumes "post_process parsed = Inr out"
  shows "\<exists>meet teams swimmers f m tml sl el.
     py_dict (py_get_default parsed ''meet'' (PDict [])) = Inr meet \<and>
     py_items (py_or (py_get_default meet ''teams'' (PDict [])) (PDict [])) = Inr teams \<and>
     py_items (py_or (py_get_default meet ''swimmers'' (PDict [])) (PDict [])) = Inr swimmers \<and>
     map fst out = [KStr ''file'', KStr ''meet''] \<and>
     py_get out ''file'' = PDict f \<and>
     f = drop_none
        [(KStr ''description'', py_get parsed ''file_description''),
         (KStr ''software'', py_get parsed ''software''),
         (KStr ''date_created'', py_get parsed ''date_created''),
         (KStr ''licensee'', py_get parsed ''licensee'')] \<and>
     py_get out ''meet'' = PDict m \<and> pruned_record (PDict m) \<and>
     py_get m ''teams'' = PList tml \<and> map_err reshape_team teams = Inr tml \<and>
     py_get m ''swimmers'' = PList sl \<and> map_err reshape_swimmer swimmers = Inr sl \<and>
     py_get m ''events'' = PList el \<and> list_all event_pruned el \<and> list_all event_carries el"
proof -
  from post_process_Inr[OF assms] obtain meet teams tml swimmers sl events ordered el where
    h: "py_dict (py_get_default parsed ''meet'' (PDict [])) = Inr meet"
     "py_items (py_or (py_get_default meet ''teams'' (PDict [])) (PDict [])) = Inr teams"
     "map_err reshape_team teams = Inr tml"
     "py_items (py_or (py_get_default meet ''swimmers'' (PDict [])) (PDict [])) = Inr swimmers"
     "map_err reshape_swimmer swimmers = Inr sl"
     "map_err reshape_event ordered = Inr el"
     "py_get out ''file'' = PDict (drop_none
        [(KStr ''description'', py_get parsed ''file_description''),
         (KStr ''software'', py_get parsed ''software''),
         (KStr ''date_created'', py_get parsed ''date_created''),
         (KStr ''licensee'', py_get parsed ''licensee'')])"
     "py_get out ''meet'' = PDict (drop_none
             [(KStr ''name'', py_get meet ''name''),
              (KStr ''facility'', py_get meet ''facility''),
              (KStr ''start_date'', py_get meet ''start_date''),
              (KStr ''end_date'', py_get meet ''end_date''),
              (KStr ''altitude'', py_get meet ''altitude''),
              (KStr ''country'', py_get meet ''country''),
              (KStr ''masters'', py_get meet ''masters''),
              (KStr ''type'', py_get meet ''type_''),
              (KStr ''course'', py_get meet ''course''),
              (KStr ''teams'', PList tml),
              (KStr ''swimmers'', PList sl),
              (KStr ''events'', PList el)])"
     "map fst out = [KStr ''file'', KStr ''meet'']"
    by (elim exE conjE) (rule that; assumption)
  have ev: "list_all event_pruned el"
    using reshape_event_pruned h(6) by (rule map_err_all)
  have ec: "list_all event_carries el"
    using reshape_event_carries h(6) by (rule map_err_all)
  show ?thesis
    using h(1-5,7-9) ev ec
    by (simp add: meet_out_lists pruned_record_drop_none meet_out_nonempty)
qed

lemma file_section_empty_iff:
  "drop_none
        [(KStr ''description'', a), (KStr ''software'', b),
         (KStr ''date_created'', c), (KStr ''licensee'', d)] = [] \<longleftrightarrow>
   prunable a \<and> prunable b \<and> prunable c \<and> prunable d"
  by (simp add: drop_none_empty_iff)

lemma example_run: "post_process example_tree = Inr example_output"
  by code_simp

text \<open>
  Claim C3, as stated, fails: when the four file-level fields are all absent the output
  still has the key \<open>file\<close>, with the empty object as its value.
\<close>

theorem empty_file_section_counterexample:
  "post_process [] =
     Inr [(KStr ''file'', PDict []),
          (KStr ''meet'', PDict [(KStr ''teams'', PList []), (KStr ''swimmers'', PList []),
                                (KStr ''events'', PList [])])] \<and>
   map_of [(KStr ''file'', PDict []),
          (KStr ''meet'', PDict [(KStr ''teams'', PList []), (KStr ''swimmers'', PList []),
                                (KStr ''events'', PList [])])] (KStr ''file'') = Some (PDict [])"
  by code_simp

text \<open>
  Claim C3, amended.  For every input tree that is reshaped, the output has exactly the
  keys \<open>file\<close> and \<open>meet\<close>.  The file section is always emitted, and it is the empty
  object exactly when its four fields all prune away.  The meet record always carries
  \<open>teams\<close>, \<open>swimmers\<close> and \<open>events\<close>, every event record \<open>number\<close>, \<open>relay\<close> and
  \<open>entries\<close>, and every entry record \<open>swimmers\<close> and \<open>relay\<close>, so none of them is ever
  empty; none of them has a field that is \<open>None\<close> or an empty object.  The seed and the
  legs of an entry, and the disqualification detail of a leg, are absent or non-empty
  records without such fields: below the file section a record whose fields all prune
  away is absent, never an empty object.
\<close>

theorem empty_records_collapse:
  assumes "post_process parsed = Inr out"
  shows "map fst out = [KStr ''file'', KStr ''meet''] \<and>
     (\<exists>f. py_get out ''file'' = PDict f \<and>
        (f = [] \<longleftrightarrow>
           prunable (py_get parsed ''file_description'') \<and>
           prunable (py_get parsed ''software'') \<and>
           prunable (py_get parsed ''date_created'') \<and>
           prunable (py_get parsed ''licensee''))) \<and>
     (\<exists>m tml sl el. py_get out ''meet'' = PDict m \<and> pruned_record (PDict m) \<and>
        py_get m ''teams'' = PList tml \<and> py_get m ''swimmers'' = PList sl \<and>
        py_get m ''events'' = PList el \<and>
        list_all event_pruned el \<and> list_all event_carries el)"
proof -
  from post_process_records[OF assms] obtain f m tml sl el where
    "map fst out = [KStr ''file'', KStr ''meet'']"
    "py_get out ''file'' = PDict f"
    "f = drop_none
        [(KStr ''description'', py_get parsed ''file_description''),
         (KStr ''software'', py_get parsed ''software''),
         (KStr ''date_created'', py_get parsed ''date_created''),
         (KStr ''licensee'', py_get parsed ''licensee'')]"
    "py_get out ''meet'' = PDict m" "pruned_record (PDict m)"
    "py_get m ''teams'' = PList tml" "py_get m ''swimmers'' = PList sl"
    "py_get m ''events'' = PList el" "list_all event_pruned el" "list_all event_carries el"
    by (elim exE conjE) (rule that; assumption)
  then show ?thesis by (simp add: file_section_empty_iff)
qed

theorem empty_records_collapse_witness:
  "post_process example_tree = Inr example_output \<and>
   map fst example_output = [KStr ''file'', KStr ''meet''] \<and>
     (\<exists>f. py_get example_output ''file'' = PDict f \<and>
        (f = [] \<longleftrightarrow>
           prunable (py_get example_tree ''file_description'') \<and>
           prunable (py_get example_tree ''software'') \<and>
           prunable (py_get example_tree ''date_created'') \<and>
           prunable (py_get example_tree ''licensee''))) \<and>
     (\<exists>m tml sl el. py_get example_output ''meet'' = PDict m \<and> pruned_record (PDict m) \<and>
        py_get m ''teams'' = PList tml \<and> py_get m ''swimmers'' = PList sl \<and>
        py_get m ''events'' = PList el \<and>
        list_all event_pruned el \<and> list_all event_carries el)"
  using empty_records_collapse[OF example_run] example_run by blast

text \<open>
  Claim C2, as stated, fails: a team record and a swimmer record are emitted with the
  fields of the source, also those that are \<open>None\<close> or an empty dictionary.
\<close>

theorem unpruned_team_counterexample:
  "post_process
     [(KStr ''meet'', PDict
        [(KStr ''teams'', PDict [(KStr ''ABC'', PDict [(KStr ''name'', PNone)])]),
         (KStr ''swimmers'', PDict [(KStr ''7'', PDict [(KStr ''team'', PDict [])])])])]
   = Inr [(KStr ''file'', PDict []),
          (KStr ''meet'', PDict
            [(KStr ''teams'', PList [PDict [(KStr ''name'', PNone), (KStr ''code'', PStr ''ABC'')]]),
             (KStr ''swimmers'', PList [PDict [(KStr ''team'', PDict []), (KStr ''meet_id'', PInt 7)]]),
             (KStr ''events'', PList [])])]"
  by code_simp

text \<open>
  Claim C2, amended.  Pruning is applied where the reshaping builds a record from named
  fields: the file section, the meet record, every event, every entry and every seed,
  leg and disqualification record have no field that is \<open>None\<close> or an empty dictionary.
  A team record is the source team with \<open>code\<close> set to its key and \<open>swimmers\<close>
  removed, and a swimmer record is the source swimmer with \<open>meet_id\<close> set: every other
  field is emitted as the source has it, whatever its value.
\<close>

theorem pruning_boundaries:
  assumes "post_process parsed = Inr out"
    and "py_get parsed ''meet'' = PDict meet"
    and "py_get meet ''teams'' = PDict teams"
    and "py_get meet ''swimmers'' = PDict swimmers"
  shows "(\<exists>f. py_get out ''file'' = PDict f \<and> list_all (\<lambda>kv. \<not> prunable (snd kv)) f) \<and>
    (\<exists>m tml sl el. py_get out ''meet'' = PDict m \<and> pruned_record (PDict m) \<and>
       py_get m ''events'' = PList el \<and> list_all event_pruned el \<and>
       py_get m ''teams'' = PList tml \<and> length tml = length teams \<and>
       (\<forall>i < length teams. \<exists>team rec.
          py_dict (snd (teams ! i)) = Inr team \<and> tml ! i = PDict rec \<and>
          (\<forall>k. map_of rec k =
             (if k = KStr ''swimmers'' then None
              else if k = KStr ''code'' then Some (key_val (fst (teams ! i)))
              else map_of team k))) \<and>
       py_get m ''swimmers'' = PList sl \<and> length sl = length swimmers \<and>
       (\<forall>i < length swimmers. \<exists>swimmer rec mid.
          py_dict (snd (swimmers ! i)) = Inr swimmer \<and> sl ! i = PDict rec \<and>
          coerce_meet_id (fst (swimmers ! i)) = Inr mid \<and>
          (\<forall>k. map_of rec k =
             (if k = KStr ''meet_id'' then Some mid else map_of swimmer k))))"
proof -
  from post_process_records[OF assms(1)] obtain meet' teams' swimmers' f m tml sl el where
    m: "py_dict (py_get_default parsed ''meet'' (PDict [])) = Inr meet'" and
    t: "py_items (py_or (py_get_default meet' ''teams'' (PDict [])) (PDict [])) = Inr teams'" and
    s: "py_items (py_or (py_get_default meet' ''swimmers'' (PDict [])) (PDict [])) = Inr swimmers'" and
    f: "py_get out ''file'' = PDict f"
    "f = drop_none
        [(KStr ''description'', py_get parsed ''file_description''),
         (KStr ''software'', py_get parsed ''software''),
         (KStr ''date_created'', py_get parsed ''date_created''),
         (KStr ''licensee'', py_get parsed ''licensee'')]" and
    mo: "py_get out ''meet'' = PDict m" "pruned_record (PDict m)" and
    tl: "py_get m ''teams'' = PList tml" "map_err reshape_team teams' = Inr tml" and
    sl: "py_get m ''swimmers'' = PList sl" "map_err reshape_swimmer swimmers' = Inr sl" and
    el: "py_get m ''events'' = PList el" "list_all event_pruned el"
    by (elim exE conjE) (rule that; assumption)
  have meet: "meet' = meet" using m py_get_default_of_get[OF assms(2)] by simp
  have teams: "teams' = teams"
    using t py_get_default_of_get[OF assms(3)] by (simp add: meet py_or_dict py_items_def)
  have swimmers: "swimmers' = swimmers"
    using s py_get_default_of_get[OF assms(4)] by (simp add: meet py_or_dict py_items_def)
  have fpr: "list_all (\<lambda>kv. \<not> prunable (snd kv)) f"
    unfolding f(2) using drop_none_values by (simp add: list_all_iff)
  from map_err_Inr[OF tl(2)] have tlen: "length tml = length teams"
    and teach: "\<forall>i < length teams. reshape_team (teams ! i) = Inr (tml ! i)"
    by (simp_all add: teams)
  from map_err_Inr[OF sl(2)] have slen: "length sl = length swimmers"
    and seach: "\<forall>i < length swimmers. reshape_swimmer (swimmers ! i) = Inr (sl ! i)"
    by (simp_all add: swimmers)
  have trec: "\<forall>i < length teams. \<exists>team rec.
          py_dict (snd (teams ! i)) = Inr team \<and> tml ! i = PDict rec \<and>
          (\<forall>k. map_of rec k =
             (if k = KStr ''swimmers'' then None
              else if k = KStr ''code'' then Some (key_val (fst (teams ! i)))
              else map_of team k))"
    using teach reshape_team_Inr by blast
  have srec: "\<forall>i < length swimmers. \<exists>swimmer rec mid.
          py_dict (snd (swimmers ! i)) = Inr swimmer \<and> sl ! i = PDict rec \<and>
          coerce_meet_id (fst (swimmers ! i)) = Inr mid \<and>
          (\<forall>k. map_of rec k =
             (if k = KStr ''meet_id'' then Some mid else map_of swimmer k))"
    using seach reshape_swimmer_fields by blast
  from f(1) fpr mo tl(1) sl(1) el tlen slen trec srec show ?thesis by blast
qed

theorem pruning_boundaries_witness:
  "post_process example_tree = Inr example_output \<and>
   (\<exists>f. py_get example_output ''file'' = PDict f \<and> list_all (\<lambda>kv. \<not> prunable (snd kv)) f) \<and>
    (\<exists>m tml sl el. py_get example_output ''meet'' = PDict m \<and> pruned_record (PDict m) \<and>
       py_get m ''events'' = PList el \<and> list_all event_pruned el \<and>
       py_get m ''teams'' = PList tml \<and> length tml = length example_teams \<and>
       (\<forall>i < length example_teams. \<exists>team rec.
          py_dict (snd (example_teams ! i)) = Inr team \<and> tml ! i = PDict rec \<and>
          (\<forall>k. map_of rec k =
             (if k = KStr ''swimmers'' then None
              else if k = KStr ''code'' then Some (key_val (fst (example_teams ! i)))
              else map_of team k))) \<and>
       py_get m ''swimmers'' = PList sl \<and> length sl = length example_swimmers \<and>
       (\<forall>i < length example_swimmers. \<exists>swimmer rec mid.
          py_dict (snd (example_swimmers ! i)) = Inr swimmer \<and> sl ! i = PDict rec \<and>
          coerce_meet_id (fst (example_swimmers ! i)) = Inr mid \<and>
          (\<forall>k. map_of rec k =
             (if k = KStr ''meet_id'' then Some mid else map_of swimmer k))))"
proof -
  have m: "py_get example_tree ''meet'' = PDict example_meet"
    by (simp add: example_tree_def py_get_Cons)
  have t: "py_get example_meet ''teams'' = PDict example_teams"
    by (simp add: example_meet_def py_get_Cons)
  have s: "py_get example_meet ''swimmers'' = PDict example_swimmers"
    by (simp add: example_meet_def py_get_Cons)
  from pruning_boundaries[OF example_run m t s] example_run show ?thesis by blast
qed

section \<open>What the reshaping changes in the store\<close>

lemma keeps_refl: "keeps n h h"
  by (simp add: keeps_def)

lemma keeps_trans: "keeps n h h' \<Longrightarrow> keeps n h' h'' \<Longrightarrow> keeps n h h''"
  by (simp add: keeps_def)

lemma lw_ret: "Q x \<Longrightarrow> local_writes n (hret x) Q"
  by (simp add: local_writes_def hret_def keeps_refl)

lemma lw_read: "local_writes n (hread g) (\<lambda>_. True)"
  by (auto simp: local_writes_def hread_def keeps_refl split: sum.splits)

lemma lw_new: "local_writes n (hnew ob) (fresh n)"
  by (auto simp: local_writes_def hnew_def keeps_def fresh_def)

lemma lw_write: "fresh n target \<Longrightarrow> local_writes n (hwrite target f) (\<lambda>_. True)"
  by (auto simp: local_writes_def hwrite_def keeps_def fresh_def h_lookup_def
      split: hval.splits option.splits sum.splits if_splits)

lemma local_writesD:
  "local_writes n m Q \<Longrightarrow> n \<le> length h \<Longrightarrow>
   (case m h of Inl (e, h') \<Rightarrow> keeps n h h' | Inr (x, h') \<Rightarrow> keeps n h h' \<and> Q x)"
  by (simp add: local_writes_def)

lemma lw_bind:
  assumes "local_writes n m Q" and "\<And>x. Q x \<Longrightarrow> local_writes n (f x) R"
  shows "local_writes n (hbind m f) R"
  unfolding local_writes_def
proof (intro allI impI)
  fix h :: heap
  assume n: "n \<le> length h"
  show "case hbind m f h of
          Inl (e, h') \<Rightarrow> keeps n h h'
        | Inr (y, h') \<Rightarrow> keeps n h h' \<and> R y"
  proof (cases "m h")
    case (Inl q)
    obtain e h' where q: "q = (e, h')" by (cases q)
    from local_writesD[OF assms(1) n] Inl q have "keeps n h h'" by simp
    then show ?thesis using Inl q by (simp add: hbind_def)
  next
    case (Inr p)
    obtain x h' where p: "p = (x, h')" by (cases p)
    from local_writesD[OF assms(1) n] Inr p have k1: "keeps n h h'" and q: "Q x"
      by simp_all
    from k1 n have n': "n \<le> length h'" by (simp add: keeps_def)
    from assms(2)[OF q] n' have c: "case f x h' of
          Inl (e, h'') \<Rightarrow> keeps n h' h''
        | Inr (y, h'') \<Rightarrow> keeps n h' h'' \<and> R y"
      by (rule local_writesD)
    show ?thesis
    proof (cases "f x h'")
      case (Inl q')
      obtain e h'' where q': "q' = (e, h'')" by (cases q')
      from c Inl q' have "keeps n h' h''" by simp
      with k1 have "keeps n h h''" by (rule keeps_trans)
      then show ?thesis using Inr p Inl q' by (simp add: hbind_def)
    next
      case (Inr p')
      obtain y h'' where p': "p' = (y, h'')" by (cases p')
      from c Inr p' have "keeps n h' h''" and r: "R y" by simp_all
      with k1 have "keeps n h h''" by (auto intro: keeps_trans)
      then show ?thesis using \<open>m h = Inr p\<close> p Inr p' r by (simp add: hbind_def)
    qed
  qed
qed

lemma lw_weaken:
  assumes "local_writes n m Q"
  shows "local_writes n m (\<lambda>_. True)"
  unfolding local_writes_def
proof (intro allI impI)
  fix h :: heap
  assume "n \<le> length h"
  with assms have "case m h of
          Inl (e, h') \<Rightarrow> keeps n h h'
        | Inr (x, h') \<Rightarrow> keeps n h h' \<and> Q x"
    by (rule local_writesD)
  then show "case m h of
          Inl (e, h') \<Rightarrow> keeps n h h'
        | Inr (x, h') \<Rightarrow> keeps n h h' \<and> True"
    by (auto split: sum.splits)
qed

lemma lw_if:
  "local_writes n a Q \<Longrightarrow> local_writes n b Q \<Longrightarrow> local_writes n (if c then a else b) Q"
  by simp

lemma lw_iter:
  assumes "\<And>x. local_writes n (body x) (\<lambda>_. True)"
  shows "local_writes n (hiter body xs) (\<lambda>_. True)"
  by (induction xs) (auto intro: lw_ret lw_bind assms)

lemma lw_truth: "local_writes n (h_truth x) (\<lambda>_. True)"
  unfolding h_truth_def by (rule lw_read)

lemma lw_get_default: "local_writes n (h_get_default x k d) (\<lambda>_. True)"
  unfolding h_get_default_def by (rule lw_read)

lemma lw_get: "local_writes n (h_get x k) (\<lambda>_. True)"
  unfolding h_get_def by (rule lw_get_default)

lemma lw_fields: "local_writes n (h_fields x fs) (\<lambda>_. True)"
  unfolding h_fields_def by (rule lw_read)

lemma lw_iterate: "local_writes n (h_iter x) (\<lambda>_. True)"
  unfolding h_iter_def by (rule lw_read)

lemma lw_or_new: "local_writes n (h_or_new x ob) (\<lambda>_. True)"
  unfolding h_or_new_def
  by (intro lw_bind[OF lw_truth] lw_if lw_ret lw_weaken[OF lw_new]) simp

lemma lw_setitem: "fresh n target \<Longrightarrow> local_writes n (h_setitem target k v) (\<lambda>_. True)"
  unfolding h_setitem_def by (rule lw_write)

lemma lw_pop: "fresh n target \<Longrightarrow> local_writes n (h_pop target k) (\<lambda>_. True)"
  unfolding h_pop_def by (rule lw_write)

lemma lw_append: "fresh n target \<Longrightarrow> local_writes n (h_append target v) (\<lambda>_. True)"
  unfolding h_append_def by (rule lw_write)

lemma lw_dict: "local_writes n (h_dict x) (fresh n)"
  unfolding h_dict_def by (intro lw_bind[OF lw_read] lw_new)

lemma lw_get_or: "local_writes n (h_get_or x k ob) (\<lambda>_. True)"
  unfolding h_get_or_def
  by (intro lw_bind[OF lw_read] lw_bind[OF lw_new] lw_bind[OF lw_get_default] lw_or_new)

lemma lw_collect:
  assumes "local_writes n items (\<lambda>_. True)"
    and "\<And>x. local_writes n (body x) (\<lambda>_. True)"
  shows "local_writes n (collect_h items body) (fresh n)"
  unfolding collect_h_def
  by (intro lw_bind[OF lw_new] lw_bind[OF assms(1)] lw_bind[OF lw_iter] lw_bind[OF assms(2)]
      lw_append lw_ret)

lemma lw_drop_none: "local_writes n (drop_none_h d) (fresh n)"
  unfolding drop_none_h_def
  by (intro lw_bind[OF lw_new] lw_bind[OF lw_read] lw_bind[OF lw_iter] lw_if lw_ret lw_setitem)
     simp_all

lemma lw_pruned: "local_writes n (pruned_h fields) (fresh n)"
  unfolding pruned_h_def by (intro lw_bind[OF lw_new] lw_drop_none)

lemma lw_build_dq: "local_writes n (build_dq_h dq_info) (\<lambda>_. True)"
  unfolding build_dq_h_def
  by (intro lw_bind[OF lw_truth] lw_if lw_bind[OF lw_fields] lw_weaken[OF lw_pruned] lw_ret)
     simp

lemma lw_build_leg: "local_writes n (build_leg_h entry prefix) (\<lambda>_. True)"
  unfolding build_leg_h_def
  by (intro lw_bind[OF lw_get] lw_bind[OF lw_build_dq] lw_bind[OF lw_fields]
      lw_bind[OF lw_pruned] lw_bind[OF lw_truth] lw_ret) simp

lemma lw_reshape_entry: "local_writes n (reshape_entry_h entry) (\<lambda>_. True)"
  unfolding reshape_entry_h_def
  by (intro lw_bind[OF lw_get_or] lw_bind[OF lw_collect] lw_iterate lw_get
      lw_bind[OF lw_fields] lw_bind[OF lw_pruned] lw_bind[OF lw_get_default]
      lw_bind[OF lw_truth] lw_bind[OF lw_build_leg] lw_bind[OF lw_get]
      lw_weaken[OF lw_pruned])

lemma lw_reshape_event: "local_writes n (reshape_event_h kv) (\<lambda>_. True)"
  unfolding reshape_event_h_def
  by (intro lw_bind[OF lw_dict] lw_bind[OF lw_setitem] lw_bind[OF lw_collect]
      lw_bind[OF lw_get_or] lw_iterate lw_reshape_entry lw_bind[OF lw_fields]
      lw_bind[OF lw_get_default] lw_bind[OF lw_truth] lw_weaken[OF lw_pruned])

lemma lw_reshape_team: "local_writes n (reshape_team_h kv) (\<lambda>_. True)"
  unfolding reshape_team_h_def
  by (intro lw_bind[OF lw_dict] lw_bind[OF lw_setitem] lw_bind[OF lw_pop] lw_ret) simp

lemma lw_reshape_swimmer: "local_writes n (reshape_swimmer_h kv) (\<lambda>_. True)"
  unfolding reshape_swimmer_h_def
  by (intro lw_bind[OF lw_dict] lw_bind[OF lw_read] lw_bind[OF lw_setitem] lw_ret) simp

lemma lw_post_process: "local_writes n (post_process_h parsed) (fresh n)"
  unfolding post_process_h_def
  by (intro lw_bind[OF lw_fields] lw_bind[OF lw_new] lw_bind[OF lw_get_default]
      lw_bind[OF lw_dict] lw_bind[OF lw_get_or] lw_bind[OF lw_collect] lw_read
      lw_bind[OF lw_read] lw_reshape_team lw_reshape_swimmer lw_reshape_event
      lw_bind[OF lw_pruned] lw_bind[OF lw_drop_none] lw_new)

lemma local_writes_store:
  assumes "local_writes (length h) m Q"
  shows "take (length h) (store_after (m h)) = h"
  using local_writesD[OF assms, of h]
  by (auto simp: store_after_def keeps_def split: sum.splits)

lemma local_writes_result:
  assumes "local_writes (length h) m Q" and "m h = Inr (x, h')"
  shows "Q x"
  using local_writesD[OF assms(1), of h] assms(2) by simp

lemma drop_none_h_result:
  "drop_none_h d h = Inr (r, h') \<Longrightarrow> r = VRef (length h)"
  by (auto simp: drop_none_h_def hbind_def hnew_def hret_def split: sum.splits prod.splits)

text \<open>
  Claim C8.  The reshaping never changes its input.  Whether a run raises or returns,
  pruning leaves every object of the store as it was, its argument among them, and
  what it returns is a new dictionary (an object at an address the store did not
  have); and a run of the whole conversion, for every input and whether it raises or
  returns, leaves every object that the store had before the call as it was, so the
  source tree (meet, teams, swimmers, events, entries) is identical to its state
  before the call, and what it returns is a new object.
\<close>

theorem reshape_leaves_store:
  "take (length h) (store_after (drop_none_h d h)) = h \<and>
   (drop_none_h d h = Inr (r, h') \<longrightarrow> r = VRef (length h)) \<and>
   take (length h) (store_after (post_process_h parsed h)) = h \<and>
   (post_process_h parsed h = Inr (out, h'') \<longrightarrow> fresh (length h) out)"
proof (intro conjI impI)
  show "take (length h) (store_after (drop_none_h d h)) = h"
    using lw_drop_none by (rule local_writes_store)
  show "take (length h) (store_after (post_process_h parsed h)) = h"
    using lw_post_process by (rule local_writes_store)
next
  assume "drop_none_h d h = Inr (r, h')"
  then show "r = VRef (length h)" by (rule drop_none_h_result)
next
  assume "post_process_h parsed h = Inr (out, h'')"
  with lw_post_process show "fresh (length h) out" by (rule local_writes_result)
qed

theorem reshape_leaves_store_witness:
  "drop_none_h (VRef 3) example_store
     = Inr (VRef 4, example_store @ [ODict [(KStr ''teams'', VRef 1)]]) \<and>
   take (length example_store) (example_store @ [ODict [(KStr ''teams'', VRef 1)]])
     = example_store \<and>
   VRef 4 = VRef (length example_store) \<and>
   post_process_h (VRef 2) example_store = Inr (VRef 19, example_store_after) \<and>
   take (length example_store) example_store_after = example_store \<and>
   fresh (length example_store) (VRef 19) \<and>
   post_process_h (VRef 5) example_store_raising
     = Inl (ValueError, example_store_raising_after) \<and>
   take (length example_store_raising) example_store_raising_after = example_store_raising \<and>
   length example_store_raising < length example_store_raising_after"
proof -
  have prune: "drop_none_h (VRef 3) example_store
     = Inr (VRef 4, example_store @ [ODict [(KStr ''teams'', VRef 1)]])"
    by code_simp
  have run: "post_process_h (VRef 2) example_store = Inr (VRef 19, example_store_after)"
    by code_simp
  have raise: "post_process_h (VRef 5) example_store_raising
     = Inl (ValueError, example_store_raising_after)"
    by code_simp
  have len: "length example_store_raising < length example_store_raising_after"
    by (simp add: example_store_raising_def example_store_raising_after_def)
  have a: "take (length example_store) (example_store @ [ODict [(KStr ''teams'', VRef 1)]])
       = example_store \<and>
     VRef 4 = VRef (length example_store) \<and>
     take (length example_store) example_store_after = example_store \<and>
     fresh (length example_store) (VRef 19)"
    using reshape_leaves_store[of example_store "VRef 3" "VRef 4"
      "example_store @ [ODict [(KStr ''teams'', VRef 1)]]" "VRef 2" "VRef 19"
      example_store_after]
    unfolding prune run store_after_def sum.case prod.case by blast
  have b: "take (length example_store_raising) example_store_raising_after
      = example_store_raising"
    using reshape_leaves_store[of example_store_raising "VRef 5" "VRef 0" "[]" "VRef 5"
      "VRef 0" "[]"]
    unfolding raise store_after_def sum.case prod.case by blast
  from prune run raise len a b show ?thesis by blast
qed

section \<open>The reshaping on the store is the reshaping of the tree\<close>

text \<open>
  Every statement of the second model does, on a store that holds a tree, what the
  first model does on the tree: the same exception, or a result that is the tree the
  first model returns.  The lemmas follow the source bottom up, from the reads to
  \<open>_post_process\<close>.
\<close>

lemma items_rep_alt: "items_rep S h d td = list_all2 (item_rep S h) d td"
  unfolding items_rep_def by (rule arg_cong[of _ _ "\<lambda>R. list_all2 R d td"]) (simp add: fun_eq_iff item_rep_def)

lemma rep_DictI:
  "a \<in> S \<Longrightarrow> h_lookup h a = Some (ODict d) \<Longrightarrow> items_rep S h d td \<Longrightarrow> rep_in S h (VRef a) (PDict td)"
  unfolding items_rep_def by (rule rep_Dict)

lemma rep_ListI:
  "a \<in> S \<Longrightarrow> h_lookup h a = Some (OList vs) \<Longrightarrow> list_rep S h vs ts \<Longrightarrow> rep_in S h (VRef a) (PList ts)"
  unfolding list_rep_def by (rule rep_List)

lemma rep_in_ext:
  assumes "rep_in S h v t" and "S \<subseteq> S'" and "\<forall>a \<in> S. h_lookup h' a = h_lookup h a"
  shows "rep_in S' h' v t"
  using assms
proof (induction rule: rep_in.induct)
  case (rep_List a vs ts)
  have "list_all2 (rep_in S' h') vs ts"
    using rep_List.IH rep_List.prems by (auto elim!: list_all2_mono)
  moreover have "a \<in> S'" "h_lookup h' a = Some (OList vs)"
    using rep_List.hyps rep_List.prems by auto
  ultimately show ?case by (rule rep_in.rep_List[rotated 2])
next
  case (rep_Dict a d td)
  have "list_all2 (\<lambda>kv kt. fst kv = fst kt \<and> rep_in S' h' (snd kv) (snd kt)) d td"
    using rep_Dict.IH rep_Dict.prems by (auto elim!: list_all2_mono)
  moreover have "a \<in> S'" "h_lookup h' a = Some (ODict d)"
    using rep_Dict.hyps rep_Dict.prems by auto
  ultimately show ?case by (rule rep_in.rep_Dict[rotated 2])
qed (auto intro: rep_in.intros)

lemma extends_refl: "extends h h"
  by (simp add: extends_def)

lemma extends_length:
  assumes "extends h h'"
  shows "length h \<le> length h'"
proof -
  from assms have "length (take (length h) h') = length h" by (simp add: extends_def)
  then show ?thesis by simp
qed

lemma extends_nth:
  assumes "extends h h'" and "a < length h"
  shows "h' ! a = h ! a"
proof -
  have "take (length h) h' ! a = h' ! a" using assms(2) by simp
  then show ?thesis using assms(1) by (simp add: extends_def)
qed

lemma extends_lookup: "extends h h' \<Longrightarrow> a < length h \<Longrightarrow> h_lookup h' a = h_lookup h a"
  using extends_length[of h h'] extends_nth[of h h' a] by (simp add: h_lookup_def)

lemma extends_trans:
  assumes "extends h h'" and "extends h' h''"
  shows "extends h h''"
proof -
  have "take (length h) h'' = take (length h) (take (length h') h'')"
    using extends_length[OF assms(1)] by (simp add: min_def)
  also have "\<dots> = take (length h) h'" using assms(2) by (simp add: extends_def)
  also have "\<dots> = h" using assms(1) by (simp add: extends_def)
  finally show ?thesis by (simp add: extends_def)
qed

lemma extends_append: "extends h (h @ xs)"
  by (simp add: extends_def)

lemma rep_in_extends:
  assumes "rep_in S h v t" and "S \<subseteq> {..<length h}" and "extends h h'" and "S \<subseteq> S'"
  shows "rep_in S' h' v t"
  using assms(1,4)
proof (rule rep_in_ext)
  show "\<forall>a \<in> S. h_lookup h' a = h_lookup h a"
    using assms(2,3) extends_lookup by blast
qed

lemma item_rep_ext:
  "item_rep S h kv kt \<Longrightarrow> S \<subseteq> S' \<Longrightarrow> \<forall>a \<in> S. h_lookup h' a = h_lookup h a \<Longrightarrow> item_rep S' h' kv kt"
  unfolding item_rep_def by (auto intro: rep_in_ext)

lemma items_rep_ext:
  "items_rep S h d td \<Longrightarrow> S \<subseteq> S' \<Longrightarrow> \<forall>a \<in> S. h_lookup h' a = h_lookup h a \<Longrightarrow> items_rep S' h' d td"
  unfolding items_rep_def by (auto elim!: list_all2_mono intro: rep_in_ext)

lemma list_rep_ext:
  "list_rep S h d td \<Longrightarrow> S \<subseteq> S' \<Longrightarrow> \<forall>a \<in> S. h_lookup h' a = h_lookup h a \<Longrightarrow> list_rep S' h' d td"
  unfolding list_rep_def by (auto elim!: list_all2_mono intro: rep_in_ext)

text \<open>What a representation says about a value.\<close>

lemma rep_in_PDict:
  assumes "rep_in S h v (PDict td)"
  obtains a d where "v = VRef a" "a \<in> S" "h_lookup h a = Some (ODict d)" "items_rep S h d td"
  using assms by (cases rule: rep_in.cases) (auto simp: items_rep_def)

lemma rep_in_PList:
  assumes "rep_in S h v (PList ts)"
  obtains a vs where "v = VRef a" "a \<in> S" "h_lookup h a = Some (OList vs)" "list_rep S h vs ts"
  using assms by (cases rule: rep_in.cases) (auto simp: list_rep_def)

lemma rep_truthy: "rep_in S h v t \<Longrightarrow> h_truthy v h = truthy t"
  by (induction rule: rep_in.induct) (auto simp: h_truthy_def)

lemma rep_is_dict: "rep_in S h v t \<Longrightarrow> h_is_dict v h = is_dict t"
  by (induction rule: rep_in.induct) (auto simp: h_is_dict_def)

lemma rep_VNone: "rep_in S h v t \<Longrightarrow> (v = VNone) = (t = PNone)"
  by (induction rule: rep_in.induct) auto

lemma rep_the_dict:
  assumes "rep_in S h v t"
  shows "case t of PDict td \<Rightarrow> (\<exists>d. the_dict v h = Inr d \<and> items_rep S h d td)
                 | _ \<Rightarrow> the_dict v h = Inl AttributeError"
  using assms
  by (cases rule: rep_in.cases) (auto simp: the_dict_def items_rep_def)

lemma items_rep_map_of:
  assumes "items_rep S h d td"
  shows "rel_option (rep_in S h) (map_of d k) (map_of td k)"
  using assms unfolding items_rep_def
  by (induction rule: list_all2_induct) auto

lemma items_rep_get_default:
  assumes "items_rep S h d td" and "rep_in S h x tx"
  shows "rep_in S h (py_get_default d k x) (py_get_default td k tx)"
  using items_rep_map_of[OF assms(1), of "KStr k"] assms(2)
  by (auto simp: py_get_default_def elim!: option.rel_cases)

lemma items_rep_get:
  assumes "items_rep S h d td"
  shows "rep_in S h (py_get_default d k VNone) (py_get td k)"
  unfolding py_get_def using assms by (rule items_rep_get_default) (rule rep_None)

lemma items_rep_dict_set:
  assumes "items_rep S h d td" and "rep_in S h v t"
  shows "items_rep S h (dict_set d k v) (dict_set td k t)"
  using assms unfolding items_rep_def
  by (induction rule: list_all2_induct) auto

lemma items_rep_dict_pop:
  assumes "items_rep S h d td"
  shows "items_rep S h (dict_pop d k) (dict_pop td k)"
  using assms unfolding items_rep_def dict_pop_def
  by (induction rule: list_all2_induct) auto

lemma rep_key_val: "rep_in S h (hkey_val k) (key_val k)"
  by (cases k) (auto intro: rep_in.intros)

lemma sim_ret: "R S h x y \<Longrightarrow> sim R S h (hret x) (Inr y)"
  by (simp add: sim_def hret_def extends_refl)

lemma sim_bind:
  assumes m: "sim R S h m f" and W: "S \<subseteq> {..<length h}"
    and k: "\<And>x h' y. f = Inr y \<Longrightarrow> extends h h' \<Longrightarrow>
              R (S \<union> {length h..<length h'}) h' x y \<Longrightarrow>
              S \<union> {length h..<length h'} \<subseteq> {..<length h'} \<Longrightarrow>
              sim R' (S \<union> {length h..<length h'}) h' (k x) (g y)"
  shows "sim R' S h (hbind m k) (bind_err f g)"
proof (cases "m h")
  case (Inl q)
  obtain e he where q: "q = (e, he)" by (cases q)
  from m Inl q have "f = Inl e" by (simp add: sim_def)
  then show ?thesis using Inl q by (simp add: sim_def hbind_def bind_err_def)
next
  case (Inr p)
  obtain x h' where p: "p = (x, h')" by (cases p)
  from m Inr p obtain y where ext: "extends h h'" and f: "f = Inr y"
    and r: "R (S \<union> {length h..<length h'}) h' x y"
    by (auto simp: sim_def)
  have len: "length h \<le> length h'" using ext by (rule extends_length)
  have W': "S \<union> {length h..<length h'} \<subseteq> {..<length h'}" using W len by auto
  have c: "sim R' (S \<union> {length h..<length h'}) h' (k x) (g y)"
    using f ext r W' by (rule k)
  show ?thesis
  proof (cases "k x h'")
    case (Inl e)
    then show ?thesis using c Inr p f by (simp add: sim_def hbind_def bind_err_def)
  next
    case (Inr q)
    obtain z h'' where q: "q = (z, h'')" by (cases q)
    from c Inr q obtain w where ext': "extends h' h''" and g: "g y = Inr w"
      and r': "R' (S \<union> {length h..<length h'} \<union> {length h'..<length h''}) h'' z w"
      by (auto simp: sim_def)
    have len': "length h' \<le> length h''" using ext' by (rule extends_length)
    have "S \<union> {length h..<length h'} \<union> {length h'..<length h''} = S \<union> {length h..<length h''}"
      using len len' by auto
    with r' have "R' (S \<union> {length h..<length h''}) h'' z w" by simp
    moreover have "extends h h''" using ext ext' by (rule extends_trans)
    ultimately show ?thesis
      using \<open>m h = Inr p\<close> p Inr q f g by (simp add: sim_def hbind_def bind_err_def)
  qed
qed

lemma sim_step:
  assumes m: "sim R S h m (Inr y)" and W: "S \<subseteq> {..<length h}"
    and k: "\<And>x h'. extends h h' \<Longrightarrow> R (S \<union> {length h..<length h'}) h' x y \<Longrightarrow>
              S \<union> {length h..<length h'} \<subseteq> {..<length h'} \<Longrightarrow>
              sim R' (S \<union> {length h..<length h'}) h' (k x) F"
  shows "sim R' S h (hbind m k) F"
proof -
  have "sim R' S h (hbind m k) (bind_err (Inr y) (\<lambda>_. F))"
  proof (rule sim_bind[OF m W])
    fix x h' y'
    assume "Inr y = (Inr y' :: py_error + 'b)" "extends h h'"
      "R (S \<union> {length h..<length h'}) h' x y'"
      "S \<union> {length h..<length h'} \<subseteq> {..<length h'}"
    then show "sim R' (S \<union> {length h..<length h'}) h' (k x) F"
      using k[of h' x] by simp
  qed
  then show ?thesis by (simp add: bind_err_def)
qed

lemma sim_conseq:
  assumes "sim R S h m f" and "\<And>S' h' x y. R S' h' x y \<Longrightarrow> R' S' h' x (F y)"
  shows "sim R' S h m (case f of Inl e \<Rightarrow> Inl e | Inr y \<Rightarrow> Inr (F y))"
  using assms by (auto simp: sim_def split: sum.splits prod.splits)

lemma sim_read:
  assumes "case g h of Inl e \<Rightarrow> f = Inl e | Inr x \<Rightarrow> (\<exists>y. f = Inr y \<and> R S h x y)"
  shows "sim R S h (hread g) f"
  using assms by (auto simp: sim_def hread_def extends_refl split: sum.splits)

lemma sim_truth:
  "rep_in S h v t \<Longrightarrow> sim (\<lambda>_ _ x y. x = y) S h (h_truth v) (Inr (truthy t))"
  unfolding h_truth_def by (rule sim_read) (simp add: rep_truthy)

lemma sim_get_default:
  assumes "rep_in S h x tx" and "rep_in S h d td"
  shows "sim rep_in S h (h_get_default x k d)
           (case tx of PDict e \<Rightarrow> Inr (py_get_default e k td) | _ \<Rightarrow> Inl AttributeError)"
  unfolding h_get_default_def
  using rep_the_dict[OF assms(1)] assms(2)
  by (intro sim_read) (auto split: pyval.splits intro: items_rep_get_default)

lemma sim_get:
  assumes "rep_in S h x tx"
  shows "sim rep_in S h (h_get x k) (obj_get tx k)"
  using sim_get_default[OF assms rep_None, of k]
  by (cases tx) (simp_all add: h_get_def obj_get_def py_get_def)

lemma items_rep_fields:
  assumes "items_rep S h d e"
  shows "items_rep S h (map (\<lambda>f. (KStr (fst f), py_get_default d (snd f) VNone)) fs)
           (map (\<lambda>f. (KStr (fst f), py_get e (snd f))) fs)"
  unfolding items_rep_def using items_rep_get[OF assms]
  by (induction fs) auto

lemma sim_fields:
  assumes "rep_in S h x tx"
  shows "sim items_rep S h (h_fields x fs)
           (case tx of PDict e \<Rightarrow> Inr (map (\<lambda>f. (KStr (fst f), py_get e (snd f))) fs)
                     | _ \<Rightarrow> Inl AttributeError)"
  unfolding h_fields_def
  using rep_the_dict[OF assms]
  by (intro sim_read) (auto split: pyval.splits intro: items_rep_fields)

lemma sim_the_dict:
  assumes "rep_in S h x tx"
  shows "sim items_rep S h (hread (the_dict x)) (py_items tx)"
  using rep_the_dict[OF assms]
  by (intro sim_read) (auto simp: py_items_def split: pyval.splits)

lemma sim_iter:
  assumes "rep_in S h x tx"
  shows "sim list_rep S h (h_iter x) (py_iter tx)"
  unfolding h_iter_def using assms
  by (intro sim_read, cases rule: rep_in.cases)
     (auto simp: list_rep_def list_all2_map1 list_all2_map2 list_all2_same
           intro: rep_in.intros rep_key_val elim!: list_all2_mono)

lemma lookup_new: "h_lookup (h @ [ob]) (length h) = Some ob"
  by (simp add: h_lookup_def)

lemma sim_new_dict:
  assumes "items_rep S h fs tfs" and W: "S \<subseteq> {..<length h}"
  shows "sim rep_in S h (hnew (ODict fs)) (Inr (PDict tfs))"
proof -
  have "items_rep (S \<union> {length h..<Suc (length h)}) (h @ [ODict fs]) fs tfs"
    using assms(1)
  proof (rule items_rep_ext)
    show "\<forall>a \<in> S. h_lookup (h @ [ODict fs]) a = h_lookup h a"
      using W extends_lookup[OF extends_append] by blast
  qed auto
  then have "rep_in (S \<union> {length h..<Suc (length h)}) (h @ [ODict fs]) (VRef (length h)) (PDict tfs)"
    by (intro rep_DictI[OF _ lookup_new]) simp_all
  then show ?thesis by (simp add: sim_def hnew_def extends_append)
qed

lemma sim_new_list:
  assumes "list_rep S h vs ts" and W: "S \<subseteq> {..<length h}"
  shows "sim rep_in S h (hnew (OList vs)) (Inr (PList ts))"
proof -
  have "list_rep (S \<union> {length h..<Suc (length h)}) (h @ [OList vs]) vs ts"
    using assms(1)
  proof (rule list_rep_ext)
    show "\<forall>a \<in> S. h_lookup (h @ [OList vs]) a = h_lookup h a"
      using W extends_lookup[OF extends_append] by blast
  qed auto
  then have "rep_in (S \<union> {length h..<Suc (length h)}) (h @ [OList vs]) (VRef (length h)) (PList ts)"
    by (intro rep_ListI[OF _ lookup_new]) simp_all
  then show ?thesis by (simp add: sim_def hnew_def extends_append)
qed

lemma sim_new_empty:
  assumes "empty_pair ob t" and W: "S \<subseteq> {..<length h}"
  shows "sim rep_in S h (hnew ob) (Inr t)"
  using assms(1) sim_new_dict[of S h "[]" "[]", OF _ W] sim_new_list[of S h "[]" "[]", OF _ W]
  by (auto simp: empty_pair_def items_rep_def list_rep_def)

lemma sim_or_new:
  assumes "rep_in S h v t" and "empty_pair ob tob" and W: "S \<subseteq> {..<length h}"
  shows "sim rep_in S h (h_or_new v ob) (Inr (py_or t tob))"
  unfolding h_or_new_def
proof (rule sim_step[OF sim_truth[OF assms(1)] W])
  fix x h'
  assume ext: "extends h h'" and x: "x = truthy t"
    and W': "S \<union> {length h..<length h'} \<subseteq> {..<length h'}"
  have v: "rep_in (S \<union> {length h..<length h'}) h' v t"
    using assms(1) W ext by (rule rep_in_extends) simp
  show "sim rep_in (S \<union> {length h..<length h'}) h' (if x then hret v else hnew ob)
          (Inr (py_or t tob))"
    using x v sim_new_empty[OF assms(2) W'] by (auto simp: py_or_def intro: sim_ret)
qed

lemma sim_get_or:
  assumes "rep_in S h x tx" and "empty_pair ob tob" and W: "S \<subseteq> {..<length h}"
  shows "sim rep_in S h (h_get_or x k ob)
           (case tx of PDict e \<Rightarrow> Inr (py_or (py_get_default e k tob) tob)
                     | _ \<Rightarrow> Inl AttributeError)"
proof (cases "\<exists>e. tx = PDict e")
  case False
  then have "py_items tx = Inl AttributeError" by (cases tx) (auto simp: py_items_def)
  with sim_the_dict[OF assms(1)] have "hread (the_dict x) h = Inl (AttributeError, h)"
    by (auto simp: sim_def hread_def split: sum.splits)
  then show ?thesis using False
    by (cases tx) (auto simp: h_get_or_def hbind_def sim_def)
next
  case True
  then obtain e where tx: "tx = PDict e" by blast
  have items: "py_items tx = Inr e" by (simp add: tx py_items_def)
  show ?thesis
    unfolding h_get_or_def tx pyval.case
  proof (rule sim_step[OF sim_the_dict[OF assms(1), unfolded items] W])
    fix d h1
    assume e1: "extends h h1" and W1: "S \<union> {length h..<length h1} \<subseteq> {..<length h1}"
    let ?S1 = "S \<union> {length h..<length h1}"
    have x1: "rep_in ?S1 h1 x tx" using assms(1) W e1 by (rule rep_in_extends) simp
    show "sim rep_in ?S1 h1
            (hbind (hnew ob) (\<lambda>dflt. hbind (h_get_default x k dflt) (\<lambda>v. h_or_new v ob)))
            (Inr (py_or (py_get_default e k tob) tob))"
    proof (rule sim_step[OF sim_new_empty[OF assms(2) W1] W1])
      fix dflt h2
      assume e2: "extends h1 h2" and dflt: "rep_in (?S1 \<union> {length h1..<length h2}) h2 dflt tob"
        and W2: "?S1 \<union> {length h1..<length h2} \<subseteq> {..<length h2}"
      let ?S2 = "?S1 \<union> {length h1..<length h2}"
      have x2: "rep_in ?S2 h2 x tx" using x1 W1 e2 by (rule rep_in_extends) simp
      have g: "sim rep_in ?S2 h2 (h_get_default x k dflt) (Inr (py_get_default e k tob))"
        using sim_get_default[OF x2 dflt, of k] by (simp add: tx)
      show "sim rep_in ?S2 h2 (hbind (h_get_default x k dflt) (\<lambda>v. h_or_new v ob))
              (Inr (py_or (py_get_default e k tob) tob))"
      proof (rule sim_step[OF g W2])
        fix v h3
        assume "rep_in (?S2 \<union> {length h2..<length h3}) h3 v (py_get_default e k tob)"
          and "?S2 \<union> {length h2..<length h3} \<subseteq> {..<length h3}"
        then show "sim rep_in (?S2 \<union> {length h2..<length h3}) h3 (h_or_new v ob)
                (Inr (py_or (py_get_default e k tob) tob))"
          using assms(2) by (intro sim_or_new)
      qed
    qed
  qed
qed

lemma hbind_Inr: "m h = Inr (x, h') \<Longrightarrow> hbind m k h = k x h'"
  by (simp add: hbind_def)

lemma hbind_Inl: "m h = Inl e \<Longrightarrow> hbind m k h = Inl e"
  by (simp add: hbind_def)

lemma h_setitem_top:
  "h_setitem (VRef (length h)) k v (h @ [ODict d]) = Inr ((), h @ [ODict (dict_set d k v)])"
  by (simp add: h_setitem_def hwrite_def h_lookup_def)

lemma h_pop_top:
  "h_pop (VRef (length h)) k (h @ [ODict d]) = Inr ((), h @ [ODict (dict_pop d k)])"
  by (simp add: h_pop_def hwrite_def h_lookup_def)

lemma the_dict_extends:
  assumes "the_dict v h = Inr d" and "extends h h'"
  shows "the_dict v h' = Inr d"
proof -
  from assms(1) obtain a where v: "v = VRef a" and a: "h_lookup h a = Some (ODict d)"
    by (auto simp: the_dict_def split: hval.splits option.splits hobj.splits)
  from a have "a < length h" by (auto simp: h_lookup_def split: if_splits)
  with assms(2) a have "h_lookup h' a = Some (ODict d)" by (simp add: extends_lookup)
  then show ?thesis by (simp add: the_dict_def v)
qed

lemma rep_in_append:
  assumes "rep_in S h v t" and "S \<subseteq> {..<length h}"
  shows "rep_in S (h @ xs) v t"
  using assms(1,2) extends_append by (rule rep_in_extends) simp

lemma items_rep_grow:
  assumes "items_rep S h d td" and "S \<subseteq> {..<length h}" and "extends h h'" and "S \<subseteq> S'"
  shows "items_rep S' h' d td"
  using assms(1,4)
proof (rule items_rep_ext)
  show "\<forall>a \<in> S. h_lookup h' a = h_lookup h a"
    using assms(2,3) extends_lookup by blast
qed

lemma list_rep_grow:
  assumes "list_rep S h d td" and "S \<subseteq> {..<length h}" and "extends h h'" and "S \<subseteq> S'"
  shows "list_rep S' h' d td"
  using assms(1,4)
proof (rule list_rep_ext)
  show "\<forall>a \<in> S. h_lookup h' a = h_lookup h a"
    using assms(2,3) extends_lookup by blast
qed

text \<open>The loop of \<open>_drop_none\<close>, with the result at the top of the store.\<close>

lemma drop_none_loop_sim:
  assumes W: "S \<subseteq> {..<length h}" and d: "items_rep S h d td" and acc: "items_rep S h acc tacc"
  shows "\<exists>acc'. hiter (\<lambda>kv.
        if snd kv = VNone then hret ()
        else hbind (hread (\<lambda>h. Inr (h_is_dict (snd kv) h \<and> \<not> h_truthy (snd kv) h)))
               (\<lambda>empty. if empty then hret () else h_setitem (VRef (length h)) (fst kv) (snd kv)))
        d (h @ [ODict acc]) = Inr ((), h @ [ODict acc']) \<and>
      items_rep S h acc' (drop_none_loop td tacc)"
  using d acc unfolding items_rep_def[of S h d td]
proof (induction arbitrary: acc tacc rule: list_all2_induct)
  case Nil
  then show ?case by (auto simp: hret_def)
next
  case (Cons kv d kt td)
  obtain k v where kv: "kv = (k, v)" by (cases kv)
  obtain k' t where kt: "kt = (k', t)" by (cases kt)
  from Cons.hyps(1) kv kt have k: "k' = k" and v: "rep_in S h v t" by simp_all
  have v': "rep_in S (h @ [ODict acc]) v t" using v W by (rule rep_in_append)
  show ?case
  proof (cases "prunable t")
    case True
    then have skip: "v = VNone \<or> (h_is_dict v (h @ [ODict acc]) \<and> \<not> h_truthy v (h @ [ODict acc]))"
      using rep_VNone[OF v] rep_is_dict[OF v'] rep_truthy[OF v'] skip_iff_prunable[of t] by auto
    from Cons.IH[OF Cons.prems] obtain acc' where
      "hiter (\<lambda>kv.
        if snd kv = VNone then hret ()
        else hbind (hread (\<lambda>h. Inr (h_is_dict (snd kv) h \<and> \<not> h_truthy (snd kv) h)))
               (\<lambda>empty. if empty then hret () else h_setitem (VRef (length h)) (fst kv) (snd kv)))
        d (h @ [ODict acc]) = Inr ((), h @ [ODict acc'])"
      "items_rep S h acc' (drop_none_loop td tacc)" by blast
    then show ?thesis
      using skip True skip_iff_prunable[of t]
      by (auto simp: kv kt hbind_def hret_def hread_def intro!: exI[of _ acc'])
  next
    case False
    then have keep: "v \<noteq> VNone" "\<not> (h_is_dict v (h @ [ODict acc]) \<and> \<not> h_truthy v (h @ [ODict acc]))"
      using rep_VNone[OF v] rep_is_dict[OF v'] rep_truthy[OF v'] skip_iff_prunable[of t] by auto
    have "items_rep S h (dict_set acc k v) (dict_set tacc k t)"
      using Cons.prems v by (rule items_rep_dict_set)
    from Cons.IH[OF this] obtain acc' where
      "hiter (\<lambda>kv.
        if snd kv = VNone then hret ()
        else hbind (hread (\<lambda>h. Inr (h_is_dict (snd kv) h \<and> \<not> h_truthy (snd kv) h)))
               (\<lambda>empty. if empty then hret () else h_setitem (VRef (length h)) (fst kv) (snd kv)))
        d (h @ [ODict (dict_set acc k v)]) = Inr ((), h @ [ODict acc'])"
      "items_rep S h acc' (drop_none_loop td (dict_set tacc k t))" by blast
    then show ?thesis
      using keep False skip_iff_prunable[of t] k
      by (auto simp: kv kt hbind_def hret_def hread_def h_setitem_top intro!: exI[of _ acc'])
  qed
qed

lemma sim_drop_none:
  assumes dv: "rep_in S h dv (PDict td)" and W: "S \<subseteq> {..<length h}"
  shows "sim rep_in S h (drop_none_h dv) (Inr (PDict (drop_none td)))"
proof -
  from rep_the_dict[OF dv] obtain d where d: "the_dict dv h = Inr d" and r: "items_rep S h d td"
    by auto
  have d': "the_dict dv (h @ [ODict []]) = Inr d"
    using d extends_append by (rule the_dict_extends)
  have "items_rep S h [] []" by (simp add: items_rep_def)
  from drop_none_loop_sim[OF W r this] obtain acc' where
    loop: "hiter (\<lambda>kv.
        if snd kv = VNone then hret ()
        else hbind (hread (\<lambda>h. Inr (h_is_dict (snd kv) h \<and> \<not> h_truthy (snd kv) h)))
               (\<lambda>empty. if empty then hret () else h_setitem (VRef (length h)) (fst kv) (snd kv)))
        d (h @ [ODict []]) = Inr ((), h @ [ODict acc'])"
    and acc': "items_rep S h acc' (drop_none td)"
    by (auto simp: drop_none_def)
  have run: "drop_none_h dv h = Inr (VRef (length h), h @ [ODict acc'])"
    by (simp add: drop_none_h_def hbind_def hnew_def hread_def d' loop hret_def)
  have "items_rep (S \<union> {length h..<Suc (length h)}) (h @ [ODict acc']) acc' (drop_none td)"
    using acc' W extends_append by (rule items_rep_grow) auto
  then have "rep_in (S \<union> {length h..<Suc (length h)}) (h @ [ODict acc']) (VRef (length h))
      (PDict (drop_none td))"
    by (intro rep_DictI[OF _ lookup_new]) simp_all
  then show ?thesis by (simp add: sim_def run extends_append)
qed

lemma sim_pruned:
  assumes "items_rep S h fs tfs" and W: "S \<subseteq> {..<length h}"
  shows "sim rep_in S h (pruned_h fs) (Inr (PDict (drop_none tfs)))"
  unfolding pruned_h_def
  by (rule sim_step[OF sim_new_dict[OF assms] W]) (rule sim_drop_none)

lemma h_dict_rep:
  assumes "rep_in S h x tx"
  shows "case py_dict tx of
           Inl e \<Rightarrow> h_dict x h = Inl (e, h)
         | Inr td \<Rightarrow> (\<exists>d. h_dict x h = Inr (VRef (length h), h @ [ODict d]) \<and> items_rep S h d td)"
  using assms
  by (cases rule: rep_in.cases)
     (auto simp: h_dict_def hbind_def hread_def hnew_def items_rep_def list_all2_Nil
           split: if_splits)

lemma sim_reshape_team:
  assumes kv: "item_rep S h kv kt" and W: "S \<subseteq> {..<length h}"
  shows "sim rep_in S h (reshape_team_h kv) (reshape_team kt)"
proof -
  from kv have k: "fst kv = fst kt" and v: "rep_in S h (snd kv) (snd kt)"
    by (simp_all add: item_rep_def)
  show ?thesis
  proof (cases "py_dict (snd kt)")
    case (Inl e)
    with h_dict_rep[OF v] have "h_dict (snd kv) h = Inl (e, h)" by simp
    then show ?thesis using Inl
      by (simp add: sim_def reshape_team_h_def reshape_team_def hbind_def bind_err_def)
  next
    case (Inr td)
    with h_dict_rep[OF v] obtain d where
      run: "h_dict (snd kv) h = Inr (VRef (length h), h @ [ODict d])" and d: "items_rep S h d td"
      by auto
    let ?d' = "dict_pop (dict_set d (KStr ''code'') (hkey_val (fst kv))) (KStr ''swimmers'')"
    let ?td' = "dict_pop (dict_set td (KStr ''code'') (key_val (fst kt))) (KStr ''swimmers'')"
    have res: "reshape_team_h kv h = Inr (VRef (length h), h @ [ODict ?d'])"
      by (simp add: reshape_team_h_def hbind_def run h_setitem_top h_pop_top hret_def)
    have "items_rep S h ?d' ?td'"
      using d rep_key_val[of S h "fst kt"] k
      by (auto intro!: items_rep_dict_pop items_rep_dict_set)
    then have "items_rep (S \<union> {length h..<Suc (length h)}) (h @ [ODict ?d']) ?d' ?td'"
      using W extends_append by (rule items_rep_grow) auto
    then have "rep_in (S \<union> {length h..<Suc (length h)}) (h @ [ODict ?d']) (VRef (length h))
        (PDict ?td')"
      by (intro rep_DictI[OF _ lookup_new]) simp_all
    then show ?thesis
      using Inr by (simp add: sim_def res extends_append reshape_team_def bind_err_def)
  qed
qed

lemma coerce_meet_id_rep:
  "case coerce_meet_id k of
     Inl e \<Rightarrow> coerce_meet_id_h k = Inl e
   | Inr t \<Rightarrow> (\<exists>v. coerce_meet_id_h k = Inr v \<and> rep_in S h v t)"
  by (auto simp: coerce_meet_id_def coerce_meet_id_h_def intro: rep_in.intros
      split: pykey.splits option.splits)

lemma sim_reshape_swimmer:
  assumes kv: "item_rep S h kv kt" and W: "S \<subseteq> {..<length h}"
  shows "sim rep_in S h (reshape_swimmer_h kv) (reshape_swimmer kt)"
proof -
  from kv have k: "fst kv = fst kt" and v: "rep_in S h (snd kv) (snd kt)"
    by (simp_all add: item_rep_def)
  show ?thesis
  proof (cases "py_dict (snd kt)")
    case (Inl e)
    with h_dict_rep[OF v] have "h_dict (snd kv) h = Inl (e, h)" by simp
    then show ?thesis using Inl
      by (simp add: sim_def reshape_swimmer_h_def reshape_swimmer_def hbind_def bind_err_def)
  next
    case (Inr td)
    with h_dict_rep[OF v] obtain d where
      run: "h_dict (snd kv) h = Inr (VRef (length h), h @ [ODict d])" and d: "items_rep S h d td"
      by auto
    show ?thesis
    proof (cases "coerce_meet_id (fst kt)")
      case (Inl e)
      with coerce_meet_id_rep[of "fst kt" S h] have "coerce_meet_id_h (fst kv) = Inl e"
        by (simp add: k)
      then show ?thesis using Inl Inr
        by (simp add: sim_def reshape_swimmer_h_def reshape_swimmer_def hbind_def bind_err_def
            run hread_def)
    next
      case (Inr t)
      with coerce_meet_id_rep[of "fst kt" S h] obtain m where
        m: "coerce_meet_id_h (fst kv) = Inr m" and mt: "rep_in S h m t"
        by (auto simp: k)
      let ?d' = "dict_set d (KStr ''meet_id'') m"
      let ?td' = "dict_set td (KStr ''meet_id'') t"
      have res: "reshape_swimmer_h kv h = Inr (VRef (length h), h @ [ODict ?d'])"
        by (simp add: reshape_swimmer_h_def hbind_def run hread_def m h_setitem_top hret_def)
      have "items_rep S h ?d' ?td'" using d mt by (rule items_rep_dict_set)
      then have "items_rep (S \<union> {length h..<Suc (length h)}) (h @ [ODict ?d']) ?d' ?td'"
        using W extends_append by (rule items_rep_grow) auto
      then have "rep_in (S \<union> {length h..<Suc (length h)}) (h @ [ODict ?d']) (VRef (length h))
          (PDict ?td')"
        by (intro rep_DictI[OF _ lookup_new]) simp_all
      then show ?thesis
        using Inr \<open>py_dict (snd kt) = Inr td\<close>
        by (simp add: sim_def res extends_append reshape_swimmer_def bind_err_def)
    qed
  qed
qed

text \<open>A loop that appends to the list at address \<open>L\<close>.\<close>

lemma collect_loop:
  fixes E :: "addr set \<Rightarrow> heap \<Rightarrow> 'a \<Rightarrow> 'b \<Rightarrow> bool"
  assumes E_ext: "\<And>S h S' h' x y. E S h x y \<Longrightarrow> S \<subseteq> S' \<Longrightarrow>
      \<forall>a \<in> S. h_lookup h' a = h_lookup h a \<Longrightarrow> E S' h' x y"
    and body: "\<And>S h x y. E S h x y \<Longrightarrow> S \<subseteq> {..<length h} \<Longrightarrow> sim rep_in S h (body x) (g y)"
  shows "L < length h \<Longrightarrow> L \<notin> S \<Longrightarrow> S \<subseteq> {..<length h} \<Longrightarrow> h ! L = OList acc \<Longrightarrow>
     list_all2 (rep_in S h) acc tacc \<Longrightarrow> list_all2 (E S h) xs ys \<Longrightarrow>
     (case hiter (\<lambda>x. hbind (body x) (h_append (VRef L))) xs h of
        Inl (e, h') \<Rightarrow> map_err g ys = Inl e
      | Inr (u, h') \<Rightarrow>
          (\<exists>rs trs. map_err g ys = Inr trs \<and> length h \<le> length h' \<and>
             (\<forall>a < length h. a \<noteq> L \<longrightarrow> h' ! a = h ! a) \<and>
             h' ! L = OList (acc @ rs) \<and>
             list_all2 (rep_in (S \<union> {length h..<length h'}) h') (acc @ rs) (tacc @ trs)))"
proof (induction xs arbitrary: h S acc tacc ys)
  case Nil
  then show ?case by (simp add: hret_def)
next
  case (Cons x xs)
  from Cons.prems(6) obtain y ys' where ys: "ys = y # ys'" and xy: "E S h x y"
    and rest: "list_all2 (E S h) xs ys'"
    by (cases ys) auto
  have b: "sim rep_in S h (body x) (g y)" using xy Cons.prems(3) by (rule body)
  show ?case
  proof (cases "body x h")
    case (Inl q)
    obtain e he where q: "q = (e, he)" by (cases q)
    from b Inl q have "g y = Inl e" by (simp add: sim_def)
    moreover have "hiter (\<lambda>x. hbind (body x) (h_append (VRef L))) (x # xs) h = Inl q"
    proof -
      have "hbind (body x) (h_append (VRef L)) h = Inl q"
        using Inl by (rule hbind_Inl[of "body x" h q])
      then show ?thesis
        by (simp add: hbind_Inl[of "hbind (body x) (h_append (VRef L))" h q])
    qed
    ultimately show ?thesis by (simp add: ys q)
  next
    case (Inr p)
    obtain r h1 where p: "p = (r, h1)" by (cases p)
    from b Inr p obtain t where e1: "extends h h1" and gy: "g y = Inr t"
      and r: "rep_in (S \<union> {length h..<length h1}) h1 r t"
      by (auto simp: sim_def)
    let ?S2 = "S \<union> {length h..<length h1}"
    let ?h2 = "h1[L := OList (acc @ [r])]"
    have len1: "length h \<le> length h1" using e1 by (rule extends_length)
    have L1: "L < length h1" using Cons.prems(1) len1 by simp
    have hL: "h1 ! L = OList acc" using extends_nth[OF e1 Cons.prems(1)] Cons.prems(4) by simp
    have app: "h_append (VRef L) r h1 = Inr ((), ?h2)"
      using L1 hL by (simp add: h_append_def hwrite_def h_lookup_def)
    have step: "hbind (body x) (h_append (VRef L)) h = Inr ((), ?h2)"
      using Inr p app by (simp add: hbind_def)
    have L2: "L \<notin> ?S2" using Cons.prems(1,2) by auto
    have W2: "?S2 \<subseteq> {..<length ?h2}" using Cons.prems(3) len1 by auto
    have agree1: "\<forall>a \<in> ?S2. h_lookup ?h2 a = h_lookup h1 a"
    proof
      fix a assume "a \<in> ?S2"
      with L2 have "a \<noteq> L" by blast
      then show "h_lookup ?h2 a = h_lookup h1 a" by (simp add: h_lookup_def)
    qed
    have agree0: "\<forall>a \<in> S. h_lookup ?h2 a = h_lookup h a"
    proof
      fix a assume a: "a \<in> S"
      then have "a < length h" "a \<noteq> L" using Cons.prems(2,3) by auto
      then show "h_lookup ?h2 a = h_lookup h a"
        using extends_nth[OF e1, of a] len1 by (simp add: h_lookup_def)
    qed
    have acc2: "list_all2 (rep_in ?S2 ?h2) (acc @ [r]) (tacc @ [t])"
    proof -
      have "list_all2 (rep_in ?S2 ?h2) acc tacc"
        using Cons.prems(5) agree0 by (auto elim!: list_all2_mono intro: rep_in_ext)
      moreover have "rep_in ?S2 ?h2 r t" using r _ agree1 by (rule rep_in_ext) simp
      ultimately show ?thesis by (simp add: list_all2_appendI)
    qed
    have rest2: "list_all2 (E ?S2 ?h2) xs ys'"
      using rest agree0 by (auto elim!: list_all2_mono intro: E_ext)
    have hL2: "?h2 ! L = OList (acc @ [r])" using L1 by simp
    have L1': "L < length ?h2" using L1 by simp
    note IH = Cons.IH[OF L1' L2 W2 hL2 acc2 rest2]
    have unroll: "hiter (\<lambda>x. hbind (body x) (h_append (VRef L))) (x # xs) h
        = hiter (\<lambda>x. hbind (body x) (h_append (VRef L))) xs ?h2"
      by (simp add: hbind_Inr[of "hbind (body x) (h_append (VRef L))" h "()" ?h2, OF step])
    show ?thesis
    proof (cases "hiter (\<lambda>x. hbind (body x) (h_append (VRef L))) xs ?h2")
      case (Inl q)
      obtain e he where q: "q = (e, he)" by (cases q)
      from IH Inl q have "map_err g ys' = Inl e" by simp
      then show ?thesis using Inl q gy by (simp add: ys unroll del: hiter.simps)
    next
      case (Inr q)
      obtain u h' where q: "q = (u, h')" by (cases q)
      from IH have "\<exists>rs trs. map_err g ys' = Inr trs \<and> length ?h2 \<le> length h' \<and>
          (\<forall>a < length ?h2. a \<noteq> L \<longrightarrow> h' ! a = ?h2 ! a) \<and>
          h' ! L = OList ((acc @ [r]) @ rs) \<and>
          list_all2 (rep_in (?S2 \<union> {length ?h2..<length h'}) h') ((acc @ [r]) @ rs)
                 ((tacc @ [t]) @ trs)"
        unfolding Inr q by (simp only: sum.case prod.case)
      then obtain rs trs where
        m: "map_err g ys' = Inr trs" and len2: "length ?h2 \<le> length h'" and
        fr: "\<forall>a < length ?h2. a \<noteq> L \<longrightarrow> h' ! a = ?h2 ! a" and
        hL': "h' ! L = OList ((acc @ [r]) @ rs)" and
        reps: "list_all2 (rep_in (?S2 \<union> {length ?h2..<length h'}) h') ((acc @ [r]) @ rs)
                 ((tacc @ [t]) @ trs)"
        by blast
      have sets: "?S2 \<union> {length ?h2..<length h'} = S \<union> {length h..<length h'}"
        using len1 len2 by auto
      have fr': "\<forall>a < length h. a \<noteq> L \<longrightarrow> h' ! a = h ! a"
      proof (intro allI impI)
        fix a assume a: "a < length h" "a \<noteq> L"
        then have "h' ! a = ?h2 ! a" using fr len1 by simp
        also have "\<dots> = h1 ! a" using a by simp
        also have "\<dots> = h ! a" using extends_nth[OF e1 a(1)] .
        finally show "h' ! a = h ! a" .
      qed
      have "map_err g ys = Inr (t # trs)" using gy m by (simp add: ys)
      moreover have "length h \<le> length h'" using len1 len2 by simp
      moreover have "h' ! L = OList (acc @ (r # rs))" using hL' by simp
      moreover have "list_all2 (rep_in (S \<union> {length h..<length h'}) h') (acc @ (r # rs))
          (tacc @ (t # trs))"
        using reps sets by simp
      ultimately have "\<exists>rs trs. map_err g ys = Inr trs \<and> length h \<le> length h' \<and>
             (\<forall>a < length h. a \<noteq> L \<longrightarrow> h' ! a = h ! a) \<and>
             h' ! L = OList (acc @ rs) \<and>
             list_all2 (rep_in (S \<union> {length h..<length h'}) h') (acc @ rs) (tacc @ trs)"
        using fr' by blast
      moreover have "hiter (\<lambda>x. hbind (body x) (h_append (VRef L))) (x # xs) h = Inr (u, h')"
        using Inr q by (simp add: unroll del: hiter.simps)
      ultimately show ?thesis by simp
    qed
  qed
qed

lemma sim_collect:
  fixes E :: "addr set \<Rightarrow> heap \<Rightarrow> 'a \<Rightarrow> 'b \<Rightarrow> bool"
  assumes E_ext: "\<And>S h S' h' x y. E S h x y \<Longrightarrow> S \<subseteq> S' \<Longrightarrow>
      \<forall>a \<in> S. h_lookup h' a = h_lookup h a \<Longrightarrow> E S' h' x y"
    and body: "\<And>S h x y. E S h x y \<Longrightarrow> S \<subseteq> {..<length h} \<Longrightarrow> sim rep_in S h (body x) (g y)"
    and items: "sim (\<lambda>S h. list_all2 (E S h)) S (h @ [OList []]) items fitems"
    and W: "S \<subseteq> {..<length h}"
  shows "sim rep_list_in S h (collect_h items body) (bind_err fitems (map_err g))"
proof -
  let ?L = "length h"
  let ?h1 = "h @ [OList []]"
  have new: "hnew (OList []) h = Inr (VRef ?L, ?h1)" by (simp add: hnew_def)
  show ?thesis
  proof (cases "items ?h1")
    case (Inl q)
    obtain e he where q: "q = (e, he)" by (cases q)
    from items Inl q have "fitems = Inl e" by (simp add: sim_def)
    moreover have "collect_h items body h = Inl q"
      unfolding collect_h_def
      by (simp add: hbind_Inr[of "hnew (OList [])" h "VRef ?L" ?h1, OF new]
          hbind_Inl[of items ?h1 q, OF Inl])
    ultimately show ?thesis by (simp add: sim_def bind_err_def q)
  next
    case (Inr p)
    obtain xs h2 where p: "p = (xs, h2)" by (cases p)
    from items Inr p obtain ys where e2: "extends ?h1 h2" and f: "fitems = Inr ys"
      and xs: "list_all2 (E (S \<union> {length ?h1..<length h2}) h2) xs ys"
      by (auto simp: sim_def)
    let ?S2 = "S \<union> {length ?h1..<length h2}"
    have len2: "length ?h1 \<le> length h2" using e2 by (rule extends_length)
    have L: "?L < length h2" using len2 by simp
    have LS: "?L \<notin> ?S2" using W by auto
    have W2: "?S2 \<subseteq> {..<length h2}" using W len2 by auto
    have hL: "h2 ! ?L = OList []" using extends_nth[OF e2, of ?L] by simp
    have acc: "list_all2 (rep_in ?S2 h2) [] []" by simp
    have loop: "case hiter (\<lambda>x. hbind (body x) (h_append (VRef ?L))) xs h2 of
        Inl (e, h') \<Rightarrow> map_err g ys = Inl e
      | Inr (u, h') \<Rightarrow>
          (\<exists>rs trs. map_err g ys = Inr trs \<and> length h2 \<le> length h' \<and>
             (\<forall>a < length h2. a \<noteq> ?L \<longrightarrow> h' ! a = h2 ! a) \<and>
             h' ! ?L = OList ([] @ rs) \<and>
             list_all2 (rep_in (?S2 \<union> {length h2..<length h'}) h') ([] @ rs) ([] @ trs))"
    proof (rule collect_loop[where E = E and body = body and g = g and acc = "[]"
          and tacc = "[]"])
      show "\<And>S h S' h' x y. E S h x y \<Longrightarrow> S \<subseteq> S' \<Longrightarrow>
          \<forall>a \<in> S. h_lookup h' a = h_lookup h a \<Longrightarrow> E S' h' x y"
        by (rule E_ext)
      show "\<And>S h x y. E S h x y \<Longrightarrow> S \<subseteq> {..<length h} \<Longrightarrow> sim rep_in S h (body x) (g y)"
        by (rule body)
      show "?L < length h2" by (rule L)
      show "?L \<notin> ?S2" by (rule LS)
      show "?S2 \<subseteq> {..<length h2}" by (rule W2)
      show "h2 ! ?L = OList []" by (rule hL)
      show "list_all2 (rep_in ?S2 h2) [] []" by (rule acc)
      show "list_all2 (E ?S2 h2) xs ys" by (rule xs)
    qed
    show ?thesis
    proof (cases "hiter (\<lambda>x. hbind (body x) (h_append (VRef ?L))) xs h2")
      case (Inl q)
      obtain e he where q: "q = (e, he)" by (cases q)
      from loop Inl q have "map_err g ys = Inl e" by simp
      moreover have "collect_h items body h = Inl q"
        unfolding collect_h_def
        by (simp add: hbind_Inr[of "hnew (OList [])" h "VRef ?L" ?h1, OF new]
            hbind_Inr[of items ?h1 xs h2, OF \<open>items ?h1 = Inr p\<close>[unfolded p]]
            hbind_Inl[of "hiter (\<lambda>x. hbind (body x) (h_append (VRef ?L))) xs" h2 q, OF Inl])
      ultimately show ?thesis using f by (simp add: sim_def bind_err_def q)
    next
      case (Inr q)
      obtain u h' where q: "q = (u, h')" by (cases q)
      from loop have "\<exists>rs trs. map_err g ys = Inr trs \<and> length h2 \<le> length h' \<and>
             (\<forall>a < length h2. a \<noteq> ?L \<longrightarrow> h' ! a = h2 ! a) \<and>
             h' ! ?L = OList ([] @ rs) \<and>
             list_all2 (rep_in (?S2 \<union> {length h2..<length h'}) h') ([] @ rs) ([] @ trs)"
        unfolding Inr q by (simp only: sum.case prod.case)
      then obtain rs trs where
        m: "map_err g ys = Inr trs" and len': "length h2 \<le> length h'" and
        fr: "\<forall>a < length h2. a \<noteq> ?L \<longrightarrow> h' ! a = h2 ! a" and
        hL': "h' ! ?L = OList rs" and
        reps: "list_all2 (rep_in (?S2 \<union> {length h2..<length h'}) h') rs trs"
        by (elim exE conjE) (simp only: append_Nil)
      have run: "collect_h items body h = Inr (VRef ?L, h')"
        unfolding collect_h_def
        by (simp add: hbind_Inr[of "hnew (OList [])" h "VRef ?L" ?h1, OF new]
            hbind_Inr[of items ?h1 xs h2, OF \<open>items ?h1 = Inr p\<close>[unfolded p]]
            hbind_Inr[of "hiter (\<lambda>x. hbind (body x) (h_append (VRef ?L))) xs" h2 u h',
              OF Inr[unfolded q]] hret_def)
      have ext: "extends h h'"
        unfolding extends_def
      proof (rule nth_equalityI)
        show "length (take (length h) h') = length h" using len2 len' by simp
      next
        fix a assume "a < length (take (length h) h')"
        then have a: "a < length h" by simp
        then have "h' ! a = h2 ! a" using fr len2 by simp
        also have "\<dots> = ?h1 ! a" using extends_nth[OF e2, of a] a by simp
        also have "\<dots> = h ! a" using a by (simp add: nth_append)
        finally show "take (length h) h' ! a = h ! a" using a by simp
      qed
      have sub: "?S2 \<union> {length h2..<length h'} \<subseteq> S \<union> {?L..<length h'}"
        using len2 len' by auto
      have "list_all2 (rep_in (S \<union> {?L..<length h'}) h') rs trs"
        using reps sub by (auto elim!: list_all2_mono intro: rep_in_ext)
      moreover have "h_lookup h' ?L = Some (OList rs)"
        using hL' L len' by (simp add: h_lookup_def)
      moreover have "?L \<in> S \<union> {?L..<length h'}" using L len' by simp
      ultimately have "rep_in (S \<union> {?L..<length h'}) h' (VRef ?L) (PList trs)"
        by (intro rep_List)
      then show ?thesis
        using run ext f m by (simp add: sim_def bind_err_def rep_list_in_def)
    qed
  qed
qed

lemma rep_in_step:
  assumes "rep_in S h v t" and "S \<subseteq> {..<length h}" and "extends h h'"
  shows "rep_in (S \<union> {length h..<length h'}) h' v t"
  using assms by (rule rep_in_extends) simp

lemma items_rep_step:
  assumes "items_rep S h d td" and "S \<subseteq> {..<length h}" and "extends h h'"
  shows "items_rep (S \<union> {length h..<length h'}) h' d td"
  using assms by (rule items_rep_grow) simp

lemma items_rep_append:
  "items_rep S h a ta \<Longrightarrow> items_rep S h b tb \<Longrightarrow> items_rep S h (a @ b) (ta @ tb)"
  by (simp add: items_rep_def list_all2_appendI)

lemma items_rep_Cons:
  "rep_in S h v t \<Longrightarrow> items_rep S h d td \<Longrightarrow> items_rep S h ((k, v) # d) ((k, t) # td)"
  by (simp add: items_rep_def)

lemma items_rep_Nil: "items_rep S h [] []"
  by (simp add: items_rep_def)

lemma sim_get_dict:
  assumes "rep_in S h x (PDict e)"
  shows "sim rep_in S h (h_get x k) (Inr (py_get e k))"
  using sim_get[OF assms, of k] by (simp add: obj_get_def)

lemma sim_fields_dict:
  assumes "rep_in S h x (PDict e)"
  shows "sim items_rep S h (h_fields x fs) (Inr (map (\<lambda>f. (KStr (fst f), py_get e (snd f))) fs))"
  using sim_fields[OF assms, of fs] by simp

lemma build_dq_alt:
  "build_dq t =
     (if truthy t
      then bind_err (case t of PDict e \<Rightarrow> Inr (map (\<lambda>f. (KStr (fst f), py_get e (snd f)))
                                          [(''code'', ''code''), (''info'', ''info_str'')])
                             | _ \<Rightarrow> Inl AttributeError)
             (\<lambda>fs. Inr (PDict (drop_none fs)))
      else Inr PNone)"
  by (cases t) (simp_all add: build_dq_def obj_get_def bind_err_def)

lemma sim_build_dq:
  assumes v: "rep_in S h dq_info t" and W: "S \<subseteq> {..<length h}"
  shows "sim rep_in S h (build_dq_h dq_info) (build_dq t)"
  unfolding build_dq_h_def
proof (rule sim_step[OF sim_truth[OF v] W])
  fix b and h1 :: heap
  assume e1: "extends h h1" and b: "b = truthy t"
    and W1: "S \<union> {length h..<length h1} \<subseteq> {..<length h1}"
  let ?S1 = "S \<union> {length h..<length h1}"
  have v1: "rep_in ?S1 h1 dq_info t" using v W e1 by (rule rep_in_step)
  show "sim rep_in ?S1 h1
          (if b then hbind (h_fields dq_info [(''code'', ''code''), (''info'', ''info_str'')]) pruned_h
           else hret VNone)
          (build_dq t)"
  proof (cases "truthy t")
    case False
    then show ?thesis using b by (simp add: build_dq_alt sim_ret rep_None)
  next
    case True
    have "sim rep_in ?S1 h1
        (hbind (h_fields dq_info [(''code'', ''code''), (''info'', ''info_str'')]) pruned_h)
        (bind_err (case t of PDict e \<Rightarrow> Inr (map (\<lambda>f. (KStr (fst f), py_get e (snd f)))
                                          [(''code'', ''code''), (''info'', ''info_str'')])
                             | _ \<Rightarrow> Inl AttributeError)
             (\<lambda>fs. Inr (PDict (drop_none fs))))"
      by (rule sim_bind[OF sim_fields[OF v1] W1]) (rule sim_pruned)
    then show ?thesis using True b by (simp add: build_dq_alt)
  qed
qed

lemma build_leg_alt:
  "build_leg e prefix =
     bind_err (build_dq (py_get e (prefix @ ''_dq_info''))) (\<lambda>dq.
       Inr (py_or (PDict (drop_none
         (map (\<lambda>f. (KStr (fst f), py_get e (snd f)))
            [(''time'', prefix @ ''_time''), (''course'', prefix @ ''_course''),
             (''time_code'', prefix @ ''_time_code'')] @
          [(KStr ''dq'', dq)] @
          map (\<lambda>f. (KStr (fst f), py_get e (snd f)))
            [(''heat'', prefix @ ''_heat''), (''lane'', prefix @ ''_lane''),
             (''heat_place'', prefix @ ''_heat_place''),
             (''overall_place'', prefix @ ''_overall_place''),
             (''date'', prefix @ ''_date''), (''splits'', prefix @ ''_splits'')]))) PNone))"
  by (simp add: build_leg_def Let_def)

lemma sim_build_leg:
  assumes en: "rep_in S h entry (PDict e)" and W: "S \<subseteq> {..<length h}"
  shows "sim rep_in S h (build_leg_h entry prefix) (build_leg e prefix)"
  unfolding build_leg_h_def build_leg_alt
proof (rule sim_step[OF sim_get_dict[OF en] W])
  fix dq_info and h1 :: heap
  let ?S1 = "S \<union> {length h..<length h1}"
  assume e1: "extends h h1" and dqi: "rep_in ?S1 h1 dq_info (py_get e (prefix @ ''_dq_info''))"
    and W1: "?S1 \<subseteq> {..<length h1}"
  have en1: "rep_in ?S1 h1 entry (PDict e)" using en W e1 by (rule rep_in_step)
  let ?before = "map (\<lambda>f. (KStr (fst f), py_get e (snd f)))
            [(''time'', prefix @ ''_time''), (''course'', prefix @ ''_course''),
             (''time_code'', prefix @ ''_time_code'')]"
  let ?after = "map (\<lambda>f. (KStr (fst f), py_get e (snd f)))
            [(''heat'', prefix @ ''_heat''), (''lane'', prefix @ ''_lane''),
             (''heat_place'', prefix @ ''_heat_place''),
             (''overall_place'', prefix @ ''_overall_place''),
             (''date'', prefix @ ''_date''), (''splits'', prefix @ ''_splits'')]"
  show "sim rep_in ?S1 h1
     (hbind (build_dq_h dq_info) (\<lambda>dq.
     hbind (h_fields entry
        [(''time'', prefix @ ''_time''), (''course'', prefix @ ''_course''),
         (''time_code'', prefix @ ''_time_code'')]) (\<lambda>before.
     hbind (h_fields entry
        [(''heat'', prefix @ ''_heat''), (''lane'', prefix @ ''_lane''),
         (''heat_place'', prefix @ ''_heat_place''),
         (''overall_place'', prefix @ ''_overall_place''),
         (''date'', prefix @ ''_date''), (''splits'', prefix @ ''_splits'')]) (\<lambda>after.
     hbind (pruned_h (before @ [(KStr ''dq'', dq)] @ after)) (\<lambda>leg.
     hbind (h_truth leg) (\<lambda>t.
     hret (if t then leg else VNone)))))))
     (bind_err (build_dq (py_get e (prefix @ ''_dq_info''))) (\<lambda>dq.
       Inr (py_or (PDict (drop_none (?before @ [(KStr ''dq'', dq)] @ ?after))) PNone)))"
  proof (rule sim_bind[OF sim_build_dq[OF dqi W1] W1])
    fix dq and h2 :: heap and tdq
    let ?S2 = "?S1 \<union> {length h1..<length h2}"
    assume e2: "extends h1 h2" and dq: "rep_in ?S2 h2 dq tdq" and W2: "?S2 \<subseteq> {..<length h2}"
    have en2: "rep_in ?S2 h2 entry (PDict e)" using en1 W1 e2 by (rule rep_in_step)
    show "sim rep_in ?S2 h2
     (hbind (h_fields entry
        [(''time'', prefix @ ''_time''), (''course'', prefix @ ''_course''),
         (''time_code'', prefix @ ''_time_code'')]) (\<lambda>before.
     hbind (h_fields entry
        [(''heat'', prefix @ ''_heat''), (''lane'', prefix @ ''_lane''),
         (''heat_place'', prefix @ ''_heat_place''),
         (''overall_place'', prefix @ ''_overall_place''),
         (''date'', prefix @ ''_date''), (''splits'', prefix @ ''_splits'')]) (\<lambda>after.
     hbind (pruned_h (before @ [(KStr ''dq'', dq)] @ after)) (\<lambda>leg.
     hbind (h_truth leg) (\<lambda>t.
     hret (if t then leg else VNone))))))
     (Inr (py_or (PDict (drop_none (?before @ [(KStr ''dq'', tdq)] @ ?after))) PNone))"
    proof (rule sim_step[OF sim_fields_dict[OF en2] W2])
      fix before and h3 :: heap
      let ?S3 = "?S2 \<union> {length h2..<length h3}"
      assume e3: "extends h2 h3" and b: "items_rep ?S3 h3 before ?before"
        and W3: "?S3 \<subseteq> {..<length h3}"
      have en3: "rep_in ?S3 h3 entry (PDict e)" using en2 W2 e3 by (rule rep_in_step)
      have dq3: "rep_in ?S3 h3 dq tdq" using dq W2 e3 by (rule rep_in_step)
      show "sim rep_in ?S3 h3
       (hbind (h_fields entry
          [(''heat'', prefix @ ''_heat''), (''lane'', prefix @ ''_lane''),
           (''heat_place'', prefix @ ''_heat_place''),
           (''overall_place'', prefix @ ''_overall_place''),
           (''date'', prefix @ ''_date''), (''splits'', prefix @ ''_splits'')]) (\<lambda>after.
       hbind (pruned_h (before @ [(KStr ''dq'', dq)] @ after)) (\<lambda>leg.
       hbind (h_truth leg) (\<lambda>t.
       hret (if t then leg else VNone)))))
       (Inr (py_or (PDict (drop_none (?before @ [(KStr ''dq'', tdq)] @ ?after))) PNone))"
      proof (rule sim_step[OF sim_fields_dict[OF en3] W3])
        fix after and h4 :: heap
        let ?S4 = "?S3 \<union> {length h3..<length h4}"
        assume e4: "extends h3 h4" and a: "items_rep ?S4 h4 after ?after"
          and W4: "?S4 \<subseteq> {..<length h4}"
        have b4: "items_rep ?S4 h4 before ?before" using b W3 e4 by (rule items_rep_step)
        have dq4: "rep_in ?S4 h4 dq tdq" using dq3 W3 e4 by (rule rep_in_step)
        have lit: "items_rep ?S4 h4 (before @ [(KStr ''dq'', dq)] @ after)
            (?before @ [(KStr ''dq'', tdq)] @ ?after)"
          by (intro items_rep_append b4 a items_rep_Cons dq4 items_rep_Nil)
        show "sim rep_in ?S4 h4
         (hbind (pruned_h (before @ [(KStr ''dq'', dq)] @ after)) (\<lambda>leg.
         hbind (h_truth leg) (\<lambda>t.
         hret (if t then leg else VNone))))
         (Inr (py_or (PDict (drop_none (?before @ [(KStr ''dq'', tdq)] @ ?after))) PNone))"
        proof (rule sim_step[OF sim_pruned[OF lit W4] W4])
          fix leg and h5 :: heap
          let ?S5 = "?S4 \<union> {length h4..<length h5}"
          let ?leg = "PDict (drop_none (?before @ [(KStr ''dq'', tdq)] @ ?after))"
          assume leg: "rep_in ?S5 h5 leg ?leg" and W5: "?S5 \<subseteq> {..<length h5}"
          show "sim rep_in ?S5 h5 (hbind (h_truth leg) (\<lambda>t. hret (if t then leg else VNone)))
              (Inr (py_or ?leg PNone))"
          proof (rule sim_step[OF sim_truth[OF leg] W5])
            fix t and h6 :: heap
            let ?S6 = "?S5 \<union> {length h5..<length h6}"
            assume e6: "extends h5 h6" and t: "t = truthy ?leg"
            have leg6: "rep_in ?S6 h6 leg ?leg" using leg W5 e6 by (rule rep_in_step)
            show "sim rep_in ?S6 h6 (hret (if t then leg else VNone)) (Inr (py_or ?leg PNone))"
              using t leg6 by (auto simp: py_or_def intro: sim_ret rep_None)
          qed
        qed
      qed
    qed
  qed
qed

lemma sim_fail: "sim R S h m (Inl e) \<Longrightarrow> sim R' S h (hbind m k) (Inl e)"
  by (auto simp: sim_def hbind_def split: sum.splits)

lemma sim_list_rep:
  "sim list_rep S h m f \<Longrightarrow> sim (\<lambda>S h. list_all2 (rep_in S h)) S h m f"
  by (auto simp: sim_def list_rep_def split: sum.splits prod.splits)

lemma sim_items_rep:
  "sim items_rep S h m f \<Longrightarrow> sim (\<lambda>S h. list_all2 (item_rep S h)) S h m f"
  by (auto simp: sim_def items_rep_alt split: sum.splits prod.splits)

lemma sim_get_default_dict:
  assumes "rep_in S h x (PDict e)" and "rep_in S h d td"
  shows "sim rep_in S h (h_get_default x k d) (Inr (py_get_default e k td))"
  using sim_get_default[OF assms, of k] by simp

lemma sim_get_or_dict:
  assumes "rep_in S h x (PDict e)" and "empty_pair ob tob" and W: "S \<subseteq> {..<length h}"
  shows "sim rep_in S h (h_get_or x k ob) (Inr (py_or (py_get_default e k tob) tob))"
  using sim_get_or[OF assms, of k] by simp

lemma sim_get_or_fail:
  assumes "rep_in S h x tx" and "empty_pair ob tob" and W: "S \<subseteq> {..<length h}"
    and "\<nexists>e. tx = PDict e"
  shows "sim rep_in S h (h_get_or x k ob) (Inl AttributeError)"
  using sim_get_or[OF assms(1-3), of k] assms(4) by (cases tx) simp_all

lemma sim_swimmer_ids:
  assumes sw: "rep_in S h sw tsw" and W: "S \<subseteq> {..<length h}"
  shows "sim rep_list_in S h (collect_h (h_iter sw) (\<lambda>s. h_get s ''meet_id''))
           (bind_err (py_iter tsw) (map_err (\<lambda>s. obj_get s ''meet_id'')))"
proof (rule sim_collect[where E = rep_in])
  show "\<And>S h S' h' x y. rep_in S h x y \<Longrightarrow> S \<subseteq> S' \<Longrightarrow>
      \<forall>a \<in> S. h_lookup h' a = h_lookup h a \<Longrightarrow> rep_in S' h' x y"
    by (rule rep_in_ext)
  show "\<And>S h x y. rep_in S h x y \<Longrightarrow> S \<subseteq> {..<length h} \<Longrightarrow>
      sim rep_in S h (h_get x ''meet_id'') (obj_get y ''meet_id'')"
    by (rule sim_get)
  show "sim (\<lambda>S h. list_all2 (rep_in S h)) S (h @ [OList []]) (h_iter sw) (py_iter tsw)"
    by (rule sim_list_rep[OF sim_iter[OF rep_in_append[OF sw W]]])
  show "S \<subseteq> {..<length h}" by (rule W)
qed

lemma sim_reshape_entry:
  assumes en: "rep_in S h entry t" and W: "S \<subseteq> {..<length h}"
  shows "sim rep_in S h (reshape_entry_h entry) (reshape_entry t)"
proof (cases "\<exists>e. t = PDict e")
  case False
  then have p: "reshape_entry t = Inl AttributeError"
    by (cases t) (simp_all add: reshape_entry_def)
  have "sim rep_in S h (h_get_or entry ''swimmers'' (OList [])) (Inl AttributeError)"
    using en _ W False by (rule sim_get_or_fail) (simp add: empty_pair_def)
  then show ?thesis unfolding p reshape_entry_h_def by (rule sim_fail)
next
  case True
  then obtain e where t: "t = PDict e" by blast
  have en0: "rep_in S h entry (PDict e)" using en t by simp
  let ?sw = "py_or (py_get_default e ''swimmers'' (PList [])) (PList [])"
  let ?seedf = "map (\<lambda>f. (KStr (fst f), py_get e (snd f)))
        [(''time'', ''seed_time''), (''course'', ''seed_course''),
         (''converted_time'', ''converted_seed_time''),
         (''converted_course'', ''converted_seed_time_course'')]"
  have g0: "sim rep_in S h (h_get_or entry ''swimmers'' (OList [])) (Inr ?sw)"
    using en0 _ W by (rule sim_get_or_dict) (simp add: empty_pair_def)
  show ?thesis unfolding t reshape_entry_h_def reshape_entry_def pyval.case swimmer_ids_def
  proof (rule sim_step[OF g0 W], goal_cases)
    case (1 sw h1)
    note e1 = 1(1) and sw = 1(2) and W1 = 1(3)
    let ?S1 = "S \<union> {length h..<length h1}"
    have en1: "rep_in ?S1 h1 entry (PDict e)" using en0 W e1 by (rule rep_in_step)
    show ?case
    proof (rule sim_bind[OF sim_swimmer_ids[OF sw W1] W1], goal_cases)
      case (1 ids h2 tids)
      note e2 = 1(2) and ids = 1(3) and W2 = 1(4)
      let ?S2 = "?S1 \<union> {length h1..<length h2}"
      have en2: "rep_in ?S2 h2 entry (PDict e)" using en1 W1 e2 by (rule rep_in_step)
      show ?case
      proof (rule sim_step[OF sim_fields_dict[OF en2] W2], goal_cases)
        case (1 sf h3)
        note e3 = 1(1) and sf = 1(2) and W3 = 1(3)
        let ?S3 = "?S2 \<union> {length h2..<length h3}"
        have en3: "rep_in ?S3 h3 entry (PDict e)" using en2 W2 e3 by (rule rep_in_step)
        show ?case
        proof (rule sim_step[OF sim_pruned[OF sf W3] W3], goal_cases)
          case (1 seed h4)
          note e4 = 1(1) and seed = 1(2) and W4 = 1(3)
          let ?S4 = "?S3 \<union> {length h3..<length h4}"
          have en4: "rep_in ?S4 h4 entry (PDict e)" using en3 W3 e4 by (rule rep_in_step)
          show ?case
          proof (rule sim_step[OF sim_get_default_dict[OF en4 rep_Bool] W4], goal_cases)
            case (1 r h5)
            note e5 = 1(1) and r = 1(2) and W5 = 1(3)
            let ?S5 = "?S4 \<union> {length h4..<length h5}"
            have en5: "rep_in ?S5 h5 entry (PDict e)" using en4 W4 e5 by (rule rep_in_step)
            have seed5: "rep_in ?S5 h5 seed (PDict (drop_none ?seedf))"
              using seed W4 e5 by (rule rep_in_step)
            show ?case
            proof (rule sim_step[OF sim_truth[OF r] W5], goal_cases)
              case (1 relay h6)
              note e6 = 1(1) and relay = 1(2) and W6 = 1(3)
              let ?S6 = "?S5 \<union> {length h5..<length h6}"
              have en6: "rep_in ?S6 h6 entry (PDict e)" using en5 W5 e6 by (rule rep_in_step)
              have seed6: "rep_in ?S6 h6 seed (PDict (drop_none ?seedf))"
                using seed5 W5 e6 by (rule rep_in_step)
              show ?case
              proof (rule sim_step[OF sim_truth[OF seed6] W6], goal_cases)
                case (1 st h7)
                note e7 = 1(1) and st = 1(2) and W7 = 1(3)
                let ?S7 = "?S6 \<union> {length h6..<length h7}"
                have en7: "rep_in ?S7 h7 entry (PDict e)" using en6 W6 e7 by (rule rep_in_step)
                show ?case
                proof (rule sim_bind[OF sim_build_leg[OF en7 W7] W7], goal_cases)
                  case (1 prelim h8 tprelim)
                  note e8 = 1(2) and prelim = 1(3) and W8 = 1(4)
                  let ?S8 = "?S7 \<union> {length h7..<length h8}"
                  have en8: "rep_in ?S8 h8 entry (PDict e)" using en7 W7 e8 by (rule rep_in_step)
                  show ?case
                  proof (rule sim_bind[OF sim_build_leg[OF en8 W8] W8], goal_cases)
                    case (1 swimoff h9 tswimoff)
                    note e9 = 1(2) and swimoff = 1(3) and W9 = 1(4)
                    let ?S9 = "?S8 \<union> {length h8..<length h9}"
                    have en9: "rep_in ?S9 h9 entry (PDict e)"
                      using en8 W8 e9 by (rule rep_in_step)
                    show ?case
                    proof (rule sim_bind[OF sim_build_leg[OF en9 W9] W9], goal_cases)
                      case (1 finals h10 tfinals)
                      note e10 = 1(2) and finals = 1(3) and W10 = 1(4)
                      let ?S10 = "?S9 \<union> {length h9..<length h10}"
                      have en10: "rep_in ?S10 h10 entry (PDict e)"
                        using en9 W9 e10 by (rule rep_in_step)
                      show ?case
                      proof (rule sim_step[OF sim_get_dict[OF en10] W10], goal_cases)
                        case (1 evn h11)
                        note e11 = 1(1) and evn = 1(2) and W11 = 1(3)
                        let ?S11 = "?S10 \<union> {length h10..<length h11}"
                        have x10: "extends h10 h11" by (rule e11)
                        have x9: "extends h9 h11" using e10 x10 by (rule extends_trans)
                        have x8: "extends h8 h11" using e9 x9 by (rule extends_trans)
                        have x7: "extends h7 h11" using e8 x8 by (rule extends_trans)
                        have x6: "extends h6 h11" using e7 x7 by (rule extends_trans)
                        have x4: "extends h4 h11"
                          using e5 e6 x6 by (blast intro: extends_trans)
                        have x2: "extends h2 h11"
                          using e3 e4 x4 by (blast intro: extends_trans)
                        have ids': "rep_in ?S11 h11 ids (PList tids)"
                          using ids[unfolded rep_list_in_def] W2 x2
                          by (rule rep_in_extends) blast
                        have seed': "rep_in ?S11 h11 seed (PDict (drop_none ?seedf))"
                          using seed W4 x4 by (rule rep_in_extends) blast
                        have prelim': "rep_in ?S11 h11 prelim tprelim"
                          using prelim W8 x8 by (rule rep_in_extends) blast
                        have swimoff': "rep_in ?S11 h11 swimoff tswimoff"
                          using swimoff W9 x9 by (rule rep_in_extends) blast
                        have finals': "rep_in ?S11 h11 finals tfinals"
                          using finals W10 x10 by (rule rep_in_extends) blast
                        have lit: "items_rep ?S11 h11
                            [(KStr ''swimmers'', ids),
                             (KStr ''relay'', VBool relay),
                             (KStr ''seed'', if st then seed else VNone),
                             (KStr ''prelim'', prelim),
                             (KStr ''swimoff'', swimoff),
                             (KStr ''finals'', finals),
                             (KStr ''event_number'', evn)]
                            [(KStr ''swimmers'', PList tids),
                             (KStr ''relay'',
                                PBool (truthy (py_get_default e ''relay'' (PBool False)))),
                             (KStr ''seed'', py_or (PDict (build_seed e)) PNone),
                             (KStr ''prelim'', tprelim),
                             (KStr ''swimoff'', tswimoff),
                             (KStr ''finals'', tfinals),
                             (KStr ''event_number'', py_get e ''event_number'')]"
                          using ids' seed' prelim' swimoff' finals' evn relay st
                          by (auto simp: items_rep_def py_or_def build_seed_def
                                   intro: rep_in.intros)
                        show ?case by (rule sim_pruned[OF lit W11])
                      qed
                    qed
                  qed
                qed
              qed
            qed
          qed
        qed
      qed
    qed
  qed
qed

lemma hbind_assoc: "hbind (hbind m f) g = hbind m (\<lambda>x. hbind (f x) g)"
  by (rule ext) (simp add: hbind_def split: sum.splits prod.splits)

lemma hbind_hret: "hbind (hret x) f = f x"
  by (rule ext) (simp add: hbind_def hret_def)

lemma bind_err_assoc: "bind_err (bind_err m f) g = bind_err m (\<lambda>x. bind_err (f x) g)"
  by (cases m) (simp_all add: bind_err_def)

lemma sim_dict:
  assumes v: "rep_in S h x tx" and W: "S \<subseteq> {..<length h}"
  shows "sim rep_dict_in S h (h_dict x) (py_dict tx)"
proof (cases "py_dict tx")
  case (Inl e)
  with h_dict_rep[OF v] have "h_dict x h = Inl (e, h)" by simp
  then show ?thesis using Inl by (simp add: sim_def)
next
  case (Inr td)
  with h_dict_rep[OF v] obtain d where
    run: "h_dict x h = Inr (VRef (length h), h @ [ODict d])" and d: "items_rep S h d td"
    by auto
  from d have "items_rep (S \<union> {length h..<Suc (length h)}) (h @ [ODict d]) d td"
    using W extends_append by (rule items_rep_grow) auto
  then have "rep_in (S \<union> {length h..<Suc (length h)}) (h @ [ODict d]) (VRef (length h))
      (PDict td)"
    by (intro rep_DictI[OF _ lookup_new]) simp_all
  then show ?thesis
    using Inr by (simp add: sim_def run extends_append rep_dict_in_def)
qed

lemma sim_dict_set:
  assumes kv: "item_rep S h kv kt" and W: "S \<subseteq> {..<length h}"
  shows "sim rep_dict_in S h
           (hbind (h_dict (snd kv)) (\<lambda>m.
            hbind (h_setitem m k (hkey_val (fst kv))) (\<lambda>_. hret m)))
           (bind_err (py_dict (snd kt)) (\<lambda>d. Inr (dict_set d k (key_val (fst kt)))))"
proof -
  from kv have k: "fst kv = fst kt" and v: "rep_in S h (snd kv) (snd kt)"
    by (simp_all add: item_rep_def)
  show ?thesis
  proof (cases "py_dict (snd kt)")
    case (Inl e)
    with h_dict_rep[OF v] have "h_dict (snd kv) h = Inl (e, h)" by simp
    then show ?thesis using Inl by (simp add: sim_def hbind_def bind_err_def)
  next
    case (Inr td)
    with h_dict_rep[OF v] obtain d where
      run: "h_dict (snd kv) h = Inr (VRef (length h), h @ [ODict d])" and d: "items_rep S h d td"
      by auto
    let ?d' = "dict_set d k (hkey_val (fst kv))"
    let ?td' = "dict_set td k (key_val (fst kt))"
    have res: "hbind (h_dict (snd kv)) (\<lambda>m.
            hbind (h_setitem m k (hkey_val (fst kv))) (\<lambda>_. hret m)) h
         = Inr (VRef (length h), h @ [ODict ?d'])"
      by (simp add: hbind_def run h_setitem_top hret_def)
    have "items_rep S h ?d' ?td'"
      using d rep_key_val[of S h "fst kt"] k by (auto intro!: items_rep_dict_set)
    then have "items_rep (S \<union> {length h..<Suc (length h)}) (h @ [ODict ?d']) ?d' ?td'"
      using W extends_append by (rule items_rep_grow) auto
    then have "rep_in (S \<union> {length h..<Suc (length h)}) (h @ [ODict ?d']) (VRef (length h))
        (PDict ?td')"
      by (intro rep_DictI[OF _ lookup_new]) simp_all
    then show ?thesis
      using Inr by (simp add: sim_def res extends_append bind_err_def rep_dict_in_def)
  qed
qed

text \<open>Sorting looks at the keys only.\<close>

lemma insort_key_rel:
  assumes "list_all2 P xs ys" and "P x y" and "\<And>a b. P a b \<Longrightarrow> f a = g b"
  shows "list_all2 P (insort_key f x xs) (insort_key g y ys)"
  using assms(1)
proof (induction rule: list_all2_induct)
  case Nil
  then show ?case using assms(2) by simp
next
  case (Cons a as b bs)
  then show ?case using assms(2,3) by auto
qed

lemma sort_key_rel:
  assumes "list_all2 P xs ys" and "\<And>a b. P a b \<Longrightarrow> f a = g b"
  shows "list_all2 P (sort_key f xs) (sort_key g ys)"
  using assms(1)
proof (induction rule: list_all2_induct)
  case Nil
  then show ?case by simp
next
  case (Cons a as b bs)
  have "list_all2 P (insort_key f a (sort_key f as)) (insort_key g b (sort_key g bs))"
    using Cons.IH Cons.hyps(1) assms(2) by (rule insort_key_rel)
  then show ?case by simp
qed

lemma event_key_fst: "fst a = fst b \<Longrightarrow> event_key a = event_key b"
  by (simp add: event_key_def)

lemma sort_rank_fst: "fst a = fst b \<Longrightarrow> sort_rank a = sort_rank b"
  by (simp add: sort_rank_def event_key_fst[of a b])

lemma list_all2_set1: "list_all2 P xs ys \<Longrightarrow> x \<in> set xs \<Longrightarrow> \<exists>y \<in> set ys. P x y"
  by (induction rule: list_all2_induct) auto

lemma list_all2_set2: "list_all2 P xs ys \<Longrightarrow> y \<in> set ys \<Longrightarrow> \<exists>x \<in> set xs. P x y"
  by (induction rule: list_all2_induct) auto

lemma sorted_events_rep:
  assumes "items_rep S h items titems"
  shows "case sorted_events items of
           Inl e \<Rightarrow> sorted_events titems = Inl e
         | Inr s \<Rightarrow> (\<exists>ts. sorted_events titems = Inr ts \<and> items_rep S h s ts)"
proof -
  let ?P = "\<lambda>kv kt. fst kv = fst (kt :: pykey \<times> pyval) \<and> rep_in S h (snd kv) (snd kt)"
  have rel: "list_all2 ?P items titems" using assms by (simp add: items_rep_def)
  have fwd: "\<exists>b \<in> set titems. event_key b = event_key a" if "a \<in> set items" for a
  proof -
    from list_all2_set1[OF rel that] obtain b where "b \<in> set titems" "fst a = fst b" by blast
    then show ?thesis using event_key_fst[of b a] by auto
  qed
  have bwd: "\<exists>a \<in> set items. event_key a = event_key b" if "b \<in> set titems" for b
  proof -
    from list_all2_set2[OF rel that] obtain a where "a \<in> set items" "fst a = fst b" by blast
    then show ?thesis using event_key_fst[of a b] by auto
  qed
  have cond: "(\<forall>a \<in> set items. \<forall>b \<in> set items.
                  tuple_lt (event_key a) (event_key b) \<noteq> Inl TypeError)
            = (\<forall>a \<in> set titems. \<forall>b \<in> set titems.
                  tuple_lt (event_key a) (event_key b) \<noteq> Inl TypeError)"
    (is "?L = ?R")
  proof
    assume L: ?L
    show ?R
    proof (intro ballI)
      fix a b assume "a \<in> set titems" "b \<in> set titems"
      then obtain a' b' where "a' \<in> set items" "event_key a' = event_key a"
        "b' \<in> set items" "event_key b' = event_key b"
        using bwd by metis
      then show "tuple_lt (event_key a) (event_key b) \<noteq> Inl TypeError"
        using L by metis
    qed
  next
    assume R: ?R
    show ?L
    proof (intro ballI)
      fix a b assume "a \<in> set items" "b \<in> set items"
      then obtain a' b' where "a' \<in> set titems" "event_key a' = event_key a"
        "b' \<in> set titems" "event_key b' = event_key b"
        using fwd by metis
      then show "tuple_lt (event_key a) (event_key b) \<noteq> Inl TypeError"
        using R by metis
    qed
  qed
  have "list_all2 ?P (sort_key sort_rank items) (sort_key sort_rank titems)"
    using rel by (rule sort_key_rel) (rule sort_rank_fst, simp)
  then have srt: "items_rep S h (sort_key sort_rank items) (sort_key sort_rank titems)"
    by (simp add: items_rep_def)
  show ?thesis
  proof (cases ?L)
    case True
    then have "sorted_events items = Inr (sort_key sort_rank items)"
      by (simp add: sorted_events_def)
    moreover from True cond have "sorted_events titems = Inr (sort_key sort_rank titems)"
      by (simp add: sorted_events_def)
    ultimately show ?thesis using srt by simp
  next
    case False
    then have "sorted_events items = Inl TypeError"
      by (simp add: sorted_events_def)
    moreover from False cond have "sorted_events titems = Inl TypeError"
      by (simp add: sorted_events_def)
    ultimately show ?thesis by simp
  qed
qed

lemma sim_entries:
  assumes em: "rep_in S h e_map (PDict e)" and W: "S \<subseteq> {..<length h}"
  shows "sim rep_list_in S h
           (collect_h (hbind (h_get_or e_map ''entries'' (OList [])) h_iter) reshape_entry_h)
           (bind_err (py_iter (py_or (py_get_default e ''entries'' (PList [])) (PList [])))
              (map_err reshape_entry))"
proof (rule sim_collect[where E = rep_in])
  show "\<And>S h S' h' x y. rep_in S h x y \<Longrightarrow> S \<subseteq> S' \<Longrightarrow>
      \<forall>a \<in> S. h_lookup h' a = h_lookup h a \<Longrightarrow> rep_in S' h' x y"
    by (rule rep_in_ext)
  show "\<And>S h x y. rep_in S h x y \<Longrightarrow> S \<subseteq> {..<length h} \<Longrightarrow>
      sim rep_in S h (reshape_entry_h x) (reshape_entry y)"
    by (rule sim_reshape_entry)
  show "S \<subseteq> {..<length h}" by (rule W)
  let ?h = "h @ [OList []]"
  have em': "rep_in S ?h e_map (PDict e)" using em W by (rule rep_in_append)
  have W': "S \<subseteq> {..<length ?h}" using W by auto
  have ep: "empty_pair (OList []) (PList [])" by (simp add: empty_pair_def)
  have "sim list_rep S ?h (hbind (h_get_or e_map ''entries'' (OList [])) h_iter)
      (bind_err (Inr (py_or (py_get_default e ''entries'' (PList [])) (PList []))) py_iter)"
    by (rule sim_bind[OF sim_get_or_dict[OF em' ep W'] W']) (rule sim_iter, assumption)
  then show "sim (\<lambda>S h. list_all2 (rep_in S h)) S ?h
      (hbind (h_get_or e_map ''entries'' (OList [])) h_iter)
      (py_iter (py_or (py_get_default e ''entries'' (PList [])) (PList [])))"
    using sim_list_rep by simp
qed

lemma reshape_event_h_alt:
  "reshape_event_h kv =
     hbind (hbind (h_dict (snd kv)) (\<lambda>m.
            hbind (h_setitem m (KStr ''number'') (hkey_val (fst kv))) (\<lambda>_. hret m)))
       (\<lambda>e_map.
     hbind (collect_h (hbind (h_get_or e_map ''entries'' (OList [])) h_iter) reshape_entry_h)
       (\<lambda>reshaped_entries.
     hbind (h_fields e_map
        [(''number'', ''number''), (''distance'', ''distance''), (''stroke'', ''stroke''),
         (''course'', ''course''), (''date'', ''date_''), (''fee'', ''fee''),
         (''gender'', ''gender''), (''gender_age'', ''gender_age''),
         (''age_min'', ''age_min''), (''age_max'', ''age_max''), (''open'', ''open_'')])
       (\<lambda>before.
     hbind (h_get_default e_map ''relay'' (VBool False)) (\<lambda>r.
     hbind (h_truth r) (\<lambda>relay.
     hbind (h_fields e_map
        [(''relay_team_id'', ''relay_team_id''),
         (''relay_swim_team_code'', ''relay_swim_team_code'')]) (\<lambda>after.
     pruned_h (before @ [(KStr ''relay'', VBool relay)] @ after @
               [(KStr ''entries'', reshaped_entries)])))))))"
  by (simp add: reshape_event_h_def hbind_assoc hbind_hret)

lemma reshape_event_alt:
  "reshape_event kt =
     bind_err (bind_err (py_dict (snd kt))
                 (\<lambda>d. Inr (dict_set d (KStr ''number'') (key_val (fst kt))))) (\<lambda>e_map.
     bind_err (bind_err (py_iter (py_or (py_get_default e_map ''entries'' (PList []))
                                    (PList [])))
                 (map_err reshape_entry)) (\<lambda>reshaped_entries.
     Inr (PDict (drop_none
       (map (\<lambda>f. (KStr (fst f), py_get e_map (snd f)))
        [(''number'', ''number''), (''distance'', ''distance''), (''stroke'', ''stroke''),
         (''course'', ''course''), (''date'', ''date_''), (''fee'', ''fee''),
         (''gender'', ''gender''), (''gender_age'', ''gender_age''),
         (''age_min'', ''age_min''), (''age_max'', ''age_max''), (''open'', ''open_'')] @
        [(KStr ''relay'', PBool (truthy (py_get_default e_map ''relay'' (PBool False))))] @
        map (\<lambda>f. (KStr (fst f), py_get e_map (snd f)))
        [(''relay_team_id'', ''relay_team_id''),
         (''relay_swim_team_code'', ''relay_swim_team_code'')] @
        [(KStr ''entries'', PList reshaped_entries)])))))"
  by (simp add: reshape_event_def Let_def bind_err_assoc)

lemma sim_reshape_event:
  assumes kv: "item_rep S h kv kt" and W: "S \<subseteq> {..<length h}"
  shows "sim rep_in S h (reshape_event_h kv) (reshape_event kt)"
  unfolding reshape_event_h_alt reshape_event_alt
proof (rule sim_bind[OF sim_dict_set[OF kv W] W], goal_cases)
  case (1 e_map h1 e)
  note e1 = 1(2) and W1 = 1(4)
  let ?S1 = "S \<union> {length h..<length h1}"
  have em1: "rep_in ?S1 h1 e_map (PDict e)" using 1(3) by (simp add: rep_dict_in_def)
  let ?before = "map (\<lambda>f. (KStr (fst f), py_get e (snd f)))
        [(''number'', ''number''), (''distance'', ''distance''), (''stroke'', ''stroke''),
         (''course'', ''course''), (''date'', ''date_''), (''fee'', ''fee''),
         (''gender'', ''gender''), (''gender_age'', ''gender_age''),
         (''age_min'', ''age_min''), (''age_max'', ''age_max''), (''open'', ''open_'')]"
  let ?after = "map (\<lambda>f. (KStr (fst f), py_get e (snd f)))
        [(''relay_team_id'', ''relay_team_id''),
         (''relay_swim_team_code'', ''relay_swim_team_code'')]"
  show ?case
  proof (rule sim_bind[OF sim_entries[OF em1 W1] W1], goal_cases)
    case (1 re h2 tre)
    note e2 = 1(2) and re = 1(3) and W2 = 1(4)
    let ?S2 = "?S1 \<union> {length h1..<length h2}"
    have em2: "rep_in ?S2 h2 e_map (PDict e)" using em1 W1 e2 by (rule rep_in_step)
    show ?case
    proof (rule sim_step[OF sim_fields_dict[OF em2] W2], goal_cases)
      case (1 before h3)
      note e3 = 1(1) and before = 1(2) and W3 = 1(3)
      let ?S3 = "?S2 \<union> {length h2..<length h3}"
      have em3: "rep_in ?S3 h3 e_map (PDict e)" using em2 W2 e3 by (rule rep_in_step)
      show ?case
      proof (rule sim_step[OF sim_get_default_dict[OF em3 rep_Bool] W3], goal_cases)
        case (1 r h4)
        note e4 = 1(1) and r = 1(2) and W4 = 1(3)
        let ?S4 = "?S3 \<union> {length h3..<length h4}"
        have em4: "rep_in ?S4 h4 e_map (PDict e)" using em3 W3 e4 by (rule rep_in_step)
        show ?case
        proof (rule sim_step[OF sim_truth[OF r] W4], goal_cases)
          case (1 relay h5)
          note e5 = 1(1) and relay = 1(2) and W5 = 1(3)
          let ?S5 = "?S4 \<union> {length h4..<length h5}"
          have em5: "rep_in ?S5 h5 e_map (PDict e)" using em4 W4 e5 by (rule rep_in_step)
          show ?case
          proof (rule sim_step[OF sim_fields_dict[OF em5] W5], goal_cases)
            case (1 after h6)
            note e6 = 1(1) and after = 1(2) and W6 = 1(3)
            let ?S6 = "?S5 \<union> {length h5..<length h6}"
            have x5: "extends h5 h6" by (rule e6)
            have x3: "extends h3 h6" using e4 e5 x5 by (blast intro: extends_trans)
            have x2: "extends h2 h6" using e3 x3 by (rule extends_trans)
            have re': "rep_in ?S6 h6 re (PList tre)"
              using re[unfolded rep_list_in_def] W2 x2 by (rule rep_in_extends) blast
            have before': "items_rep ?S6 h6 before ?before"
              using before W3 x3 by (rule items_rep_grow) blast
            have relay': "rep_in ?S6 h6 (VBool relay)
                (PBool (truthy (py_get_default e ''relay'' (PBool False))))"
              using relay by (simp add: rep_Bool)
            have lit: "items_rep ?S6 h6
                (before @ [(KStr ''relay'', VBool relay)] @ after @
                   [(KStr ''entries'', re)])
                (?before @
                 [(KStr ''relay'', PBool (truthy (py_get_default e ''relay'' (PBool False))))] @
                 ?after @ [(KStr ''entries'', PList tre)])"
              by (intro items_rep_append before' after items_rep_Cons relay' re' items_rep_Nil)
            show ?case by (rule sim_pruned[OF lit W6])
          qed
        qed
      qed
    qed
  qed
qed

lemma sim_rep_dict:
  "sim rep_in S h m (Inr (PDict d)) \<Longrightarrow> sim rep_dict_in S h m (Inr d)"
  by (auto simp: sim_def rep_dict_in_def split: sum.splits prod.splits)

lemma sim_members:
  assumes x: "rep_in S h x tx" and W: "S \<subseteq> {..<length h}"
    and body: "\<And>S h kv kt. item_rep S h kv kt \<Longrightarrow> S \<subseteq> {..<length h} \<Longrightarrow>
                 sim rep_in S h (body kv) (g kt)"
  shows "sim rep_list_in S h (collect_h (hread (the_dict x)) body)
           (bind_err (py_items tx) (map_err g))"
proof (rule sim_collect[where E = item_rep])
  show "\<And>S h S' h' x y. item_rep S h x y \<Longrightarrow> S \<subseteq> S' \<Longrightarrow>
      \<forall>a \<in> S. h_lookup h' a = h_lookup h a \<Longrightarrow> item_rep S' h' x y"
    by (rule item_rep_ext)
  show "\<And>S h x y. item_rep S h x y \<Longrightarrow> S \<subseteq> {..<length h} \<Longrightarrow>
      sim rep_in S h (body x) (g y)"
    by (rule body)
  show "S \<subseteq> {..<length h}" by (rule W)
  show "sim (\<lambda>S h. list_all2 (item_rep S h)) S (h @ [OList []]) (hread (the_dict x))
      (py_items tx)"
    by (rule sim_items_rep[OF sim_the_dict[OF rep_in_append[OF x W]]])
qed

lemma sim_sorted_items:
  assumes x: "rep_in S h x tx" and W: "S \<subseteq> {..<length h}"
  shows "sim items_rep S h
           (hbind (hread (the_dict x)) (\<lambda>items. hread (\<lambda>h. sorted_events items)))
           (bind_err (py_items tx) sorted_events)"
proof (rule sim_bind[OF sim_the_dict[OF x] W], goal_cases)
  case (1 items h' titems)
  show ?case by (rule sim_read) (rule sorted_events_rep[OF 1(3)])
qed

lemma sim_events:
  assumes x: "rep_in S h x tx" and W: "S \<subseteq> {..<length h}"
  shows "sim rep_list_in S h
           (collect_h (hbind (hread (the_dict x)) (\<lambda>items. hread (\<lambda>h. sorted_events items)))
              reshape_event_h)
           (bind_err (bind_err (py_items tx) sorted_events) (map_err reshape_event))"
proof (rule sim_collect[where E = item_rep])
  show "\<And>S h S' h' x y. item_rep S h x y \<Longrightarrow> S \<subseteq> S' \<Longrightarrow>
      \<forall>a \<in> S. h_lookup h' a = h_lookup h a \<Longrightarrow> item_rep S' h' x y"
    by (rule item_rep_ext)
  show "\<And>S h x y. item_rep S h x y \<Longrightarrow> S \<subseteq> {..<length h} \<Longrightarrow>
      sim rep_in S h (reshape_event_h x) (reshape_event y)"
    by (rule sim_reshape_event)
  show "S \<subseteq> {..<length h}" by (rule W)
  have W': "S \<subseteq> {..<length (h @ [OList []])}" using W by auto
  show "sim (\<lambda>S h. list_all2 (item_rep S h)) S (h @ [OList []])
      (hbind (hread (the_dict x)) (\<lambda>items. hread (\<lambda>h. sorted_events items)))
      (bind_err (py_items tx) sorted_events)"
    by (rule sim_items_rep[OF sim_sorted_items[OF rep_in_append[OF x W] W']])
qed

lemma post_process_alt:
  "post_process parsed =
     bind_err (py_dict (py_get_default parsed ''meet'' (PDict []))) (\<lambda>meet.
     bind_err (bind_err (py_items (py_or (py_get_default meet ''teams'' (PDict [])) (PDict [])))
                 (map_err reshape_team)) (\<lambda>teams_list.
     bind_err (bind_err (py_items (py_or (py_get_default meet ''swimmers'' (PDict []))
                                     (PDict [])))
                 (map_err reshape_swimmer)) (\<lambda>swimmers_list.
     bind_err (bind_err (bind_err (py_items (py_or (py_get_default meet ''events'' (PDict []))
                                               (PDict [])))
                           sorted_events)
                 (map_err reshape_event)) (\<lambda>events_list.
     Inr [(KStr ''file'', PDict (drop_none
            (map (\<lambda>f. (KStr (fst f), py_get parsed (snd f)))
               [(''description'', ''file_description''), (''software'', ''software''),
                (''date_created'', ''date_created''), (''licensee'', ''licensee'')]))),
          (KStr ''meet'', PDict (drop_none
            (map (\<lambda>f. (KStr (fst f), py_get meet (snd f)))
               [(''name'', ''name''), (''facility'', ''facility''),
                (''start_date'', ''start_date''), (''end_date'', ''end_date''),
                (''altitude'', ''altitude''), (''country'', ''country''),
                (''masters'', ''masters''), (''type'', ''type_''), (''course'', ''course'')] @
             [(KStr ''teams'', PList teams_list), (KStr ''swimmers'', PList swimmers_list),
              (KStr ''events'', PList events_list)])))]))))"
  by (simp add: post_process_def Let_def bind_err_assoc)

lemma sim_teams:
  assumes x: "rep_in S h x tx" and W: "S \<subseteq> {..<length h}"
  shows "sim rep_list_in S h (collect_h (hread (the_dict x)) reshape_team_h)
           (bind_err (py_items tx) (map_err reshape_team))"
  using x W by (rule sim_members) (rule sim_reshape_team)

lemma sim_swimmers:
  assumes x: "rep_in S h x tx" and W: "S \<subseteq> {..<length h}"
  shows "sim rep_list_in S h (collect_h (hread (the_dict x)) reshape_swimmer_h)
           (bind_err (py_items tx) (map_err reshape_swimmer))"
  using x W by (rule sim_members) (rule sim_reshape_swimmer)

lemma sim_post_process:
  assumes p: "rep_in S h parsed (PDict tp)" and W: "S \<subseteq> {..<length h}"
  shows "sim rep_dict_in S h (post_process_h parsed) (post_process tp)"
  unfolding post_process_h_def post_process_alt
proof (rule sim_step[OF sim_fields_dict[OF p] W], goal_cases)
  case (1 ff h1)
  note e1 = 1(1) and ff = 1(2) and W1 = 1(3)
  let ?S1 = "S \<union> {length h..<length h1}"
  let ?ff = "map (\<lambda>f. (KStr (fst f), py_get tp (snd f)))
               [(''description'', ''file_description''), (''software'', ''software''),
                (''date_created'', ''date_created''), (''licensee'', ''licensee'')]"
  have p1: "rep_in ?S1 h1 parsed (PDict tp)" using p W e1 by (rule rep_in_step)
  show ?case
  proof (rule sim_step[OF sim_new_dict[OF ff W1] W1], goal_cases)
    case (1 file_section h2)
    note e2 = 1(1) and fs = 1(2) and W2 = 1(3)
    let ?S2 = "?S1 \<union> {length h1..<length h2}"
    have p2: "rep_in ?S2 h2 parsed (PDict tp)" using p1 W1 e2 by (rule rep_in_step)
    show ?case
    proof (rule sim_step[OF sim_new_dict[OF items_rep_Nil W2] W2], goal_cases)
      case (1 dflt h3)
      note e3 = 1(1) and dflt = 1(2) and W3 = 1(3)
      let ?S3 = "?S2 \<union> {length h2..<length h3}"
      have p3: "rep_in ?S3 h3 parsed (PDict tp)" using p2 W2 e3 by (rule rep_in_step)
      show ?case
      proof (rule sim_step[OF sim_get_default_dict[OF p3 dflt] W3], goal_cases)
        case (1 m h4)
        note e4 = 1(1) and m = 1(2) and W4 = 1(3)
        let ?S4 = "?S3 \<union> {length h3..<length h4}"
        show ?case
        proof (rule sim_bind[OF sim_dict[OF m W4] W4], goal_cases)
          case (1 meet h5 tm)
          note e5 = 1(2) and W5 = 1(4)
          let ?S5 = "?S4 \<union> {length h4..<length h5}"
          have meet: "rep_in ?S5 h5 meet (PDict tm)" using 1(3) by (simp add: rep_dict_in_def)
          have ep: "empty_pair (ODict []) (PDict [])" by (simp add: empty_pair_def)
          show ?case
          proof (rule sim_step[OF sim_get_or_dict[OF meet ep W5] W5], goal_cases)
            case (1 teams h6)
            note e6 = 1(1) and teams = 1(2) and W6 = 1(3)
            let ?S6 = "?S5 \<union> {length h5..<length h6}"
            have meet6: "rep_in ?S6 h6 meet (PDict tm)" using meet W5 e6 by (rule rep_in_step)
            show ?case
            proof (rule sim_bind[OF sim_teams[OF teams W6] W6], goal_cases)
              case (1 teams_list h7 ttl)
              note e7 = 1(2) and tl7 = 1(3) and W7 = 1(4)
              let ?S7 = "?S6 \<union> {length h6..<length h7}"
              have meet7: "rep_in ?S7 h7 meet (PDict tm)"
                using meet6 W6 e7 by (rule rep_in_step)
              show ?case
              proof (rule sim_step[OF sim_get_or_dict[OF meet7 ep W7] W7], goal_cases)
                case (1 swimmers h8)
                note e8 = 1(1) and swimmers = 1(2) and W8 = 1(3)
                let ?S8 = "?S7 \<union> {length h7..<length h8}"
                have meet8: "rep_in ?S8 h8 meet (PDict tm)"
                  using meet7 W7 e8 by (rule rep_in_step)
                show ?case
                proof (rule sim_bind[OF sim_swimmers[OF swimmers W8] W8],
                    goal_cases)
                  case (1 swimmers_list h9 tsl)
                  note e9 = 1(2) and sl9 = 1(3) and W9 = 1(4)
                  let ?S9 = "?S8 \<union> {length h8..<length h9}"
                  have meet9: "rep_in ?S9 h9 meet (PDict tm)"
                    using meet8 W8 e9 by (rule rep_in_step)
                  show ?case
                  proof (rule sim_step[OF sim_get_or_dict[OF meet9 ep W9] W9], goal_cases)
                    case (1 events h10)
                    note e10 = 1(1) and events = 1(2) and W10 = 1(3)
                    let ?S10 = "?S9 \<union> {length h9..<length h10}"
                    have meet10: "rep_in ?S10 h10 meet (PDict tm)"
                      using meet9 W9 e10 by (rule rep_in_step)
                    show ?case
                    proof (rule sim_bind[OF sim_events[OF events W10] W10], goal_cases)
                      case (1 events_list h11 tel)
                      note e11 = 1(2) and el11 = 1(3) and W11 = 1(4)
                      let ?S11 = "?S10 \<union> {length h10..<length h11}"
                      have meet11: "rep_in ?S11 h11 meet (PDict tm)"
                        using meet10 W10 e11 by (rule rep_in_step)
                      show ?case
                      proof (rule sim_step[OF sim_fields_dict[OF meet11] W11], goal_cases)
                        case (1 mf h12)
                        note e12 = 1(1) and mf = 1(2) and W12 = 1(3)
                        let ?S12 = "?S11 \<union> {length h11..<length h12}"
                        let ?mf = "map (\<lambda>f. (KStr (fst f), py_get tm (snd f)))
                           [(''name'', ''name''), (''facility'', ''facility''),
                            (''start_date'', ''start_date''), (''end_date'', ''end_date''),
                            (''altitude'', ''altitude''), (''country'', ''country''),
                            (''masters'', ''masters''), (''type'', ''type_''),
                            (''course'', ''course'')]"
                        have x11: "extends h11 h12" by (rule e12)
                        have x9: "extends h9 h12"
                          using e10 e11 x11 by (blast intro: extends_trans)
                        have x7: "extends h7 h12"
                          using e8 e9 x9 by (blast intro: extends_trans)
                        have x2: "extends h2 h12"
                          using e3 e4 e5 e6 e7 x7 by (blast intro: extends_trans)
                        have tl: "rep_in ?S12 h12 teams_list (PList ttl)"
                          using tl7[unfolded rep_list_in_def] W7 x7
                          by (rule rep_in_extends) blast
                        have sl: "rep_in ?S12 h12 swimmers_list (PList tsl)"
                          using sl9[unfolded rep_list_in_def] W9 x9
                          by (rule rep_in_extends) blast
                        have el: "rep_in ?S12 h12 events_list (PList tel)"
                          using el11[unfolded rep_list_in_def] W11 x11
                          by (rule rep_in_extends) blast
                        have fs12: "rep_in ?S12 h12 file_section (PDict ?ff)"
                          using fs W2 x2 by (rule rep_in_extends) blast
                        have lit: "items_rep ?S12 h12
                            (mf @ [(KStr ''teams'', teams_list),
                                   (KStr ''swimmers'', swimmers_list),
                                   (KStr ''events'', events_list)])
                            (?mf @ [(KStr ''teams'', PList ttl),
                                    (KStr ''swimmers'', PList tsl),
                                    (KStr ''events'', PList tel)])"
                          by (intro items_rep_append mf items_rep_Cons tl sl el items_rep_Nil)
                        show ?case
                        proof (rule sim_step[OF sim_pruned[OF lit W12] W12], goal_cases)
                          case (1 meet_out h13)
                          note e13 = 1(1) and mo = 1(2) and W13 = 1(3)
                          let ?S13 = "?S12 \<union> {length h12..<length h13}"
                          have fs13: "rep_in ?S13 h13 file_section (PDict ?ff)"
                            using fs12 W12 e13 by (rule rep_in_step)
                          show ?case
                          proof (rule sim_step[OF sim_drop_none[OF fs13 W13] W13], goal_cases)
                            case (1 file_out h14)
                            note e14 = 1(1) and fo = 1(2) and W14 = 1(3)
                            let ?S14 = "?S13 \<union> {length h13..<length h14}"
                            let ?mo = "PDict (drop_none
                                (?mf @ [(KStr ''teams'', PList ttl),
                                        (KStr ''swimmers'', PList tsl),
                                        (KStr ''events'', PList tel)]))"
                            have mo14: "rep_in ?S14 h14 meet_out ?mo"
                              using mo W13 e14 by (rule rep_in_step)
                            have out: "items_rep ?S14 h14
                                [(KStr ''file'', file_out), (KStr ''meet'', meet_out)]
                                [(KStr ''file'', PDict (drop_none ?ff)), (KStr ''meet'', ?mo)]"
                              by (intro items_rep_Cons fo mo14 items_rep_Nil)
                            show ?case by (rule sim_rep_dict[OF sim_new_dict[OF out W14]])
                          qed
                        qed
                      qed
                    qed
                  qed
                qed
              qed
            qed
          qed
        qed
      qed
    qed
  qed
qed

lemma rep_in_unique:
  assumes "rep_in S h v t" and "rep_in S' h v t'"
  shows "t = t'"
  using assms
proof (induction arbitrary: t' S' rule: rep_in.induct)
  case (rep_List a vs ts)
  from rep_List.prems rep_List.hyps(2) obtain ts' where t': "t' = PList ts'"
    and r: "list_all2 (rep_in S' h) vs ts'"
    by (cases rule: rep_in.cases) auto
  have "ts = ts'"
    using rep_List.IH r
  proof (induction arbitrary: ts' rule: list_all2_induct)
    case Nil
    then show ?case by simp
  next
    case (Cons x xs y ys)
    from Cons.prems obtain z zs where "ts' = z # zs" "rep_in S' h x z" "list_all2 (rep_in S' h) xs zs"
      by (auto simp: list_all2_Cons1)
    then show ?case using Cons by auto
  qed
  then show ?case using t' by simp
next
  case (rep_Dict a d td)
  from rep_Dict.prems rep_Dict.hyps(2) obtain td' where t': "t' = PDict td'"
    and r: "list_all2 (\<lambda>kv kt. fst kv = fst kt \<and> rep_in S' h (snd kv) (snd kt)) d td'"
    by (cases rule: rep_in.cases) auto
  have "td = td'"
    using rep_Dict.IH r
  proof (induction arbitrary: td' rule: list_all2_induct)
    case Nil
    then show ?case by simp
  next
    case (Cons x xs y ys)
    from Cons.prems obtain z zs where z: "td' = z # zs" "fst x = fst z"
      "rep_in S' h (snd x) (snd z)"
      "list_all2 (\<lambda>kv kt. fst kv = fst kt \<and> rep_in S' h (snd kv) (snd kt)) xs zs"
      by (auto simp: list_all2_Cons1)
    with Cons have "snd y = snd z" "fst y = fst z" "ys = zs" by auto
    then show ?case using z(1) by (simp add: prod_eq_iff)
  qed
  then show ?case using t' by simp
qed (auto elim: rep_in.cases)

lemma post_process_h_correct:
  assumes "represents h parsed (PDict t)"
  shows "case post_process t of
           Inl e \<Rightarrow> (\<exists>h'. post_process_h parsed h = Inl (e, h'))
         | Inr out \<Rightarrow> (\<exists>v h'. post_process_h parsed h = Inr (v, h') \<and> extends h h' \<and>
                          represents h' v (PDict out))"
proof -
  have s: "sim rep_dict_in {..<length h} h (post_process_h parsed) (post_process t)"
    using assms unfolding represents_def by (rule sim_post_process) simp
  show ?thesis
  proof (cases "post_process_h parsed h")
    case (Inl q)
    obtain e he where q: "q = (e, he)" by (cases q)
    from s Inl q have "post_process t = Inl e" by (simp add: sim_def)
    then show ?thesis using Inl q by simp
  next
    case (Inr q)
    obtain v h' where q: "q = (v, h')" by (cases q)
    from s Inr q obtain out where x: "extends h h'" and o: "post_process t = Inr out"
      and r: "rep_in ({..<length h} \<union> {length h..<length h'}) h' v (PDict out)"
      by (auto simp: sim_def rep_dict_in_def)
    from x have "length h \<le> length h'" by (rule extends_length)
    then have "{..<length h} \<union> {length h..<length h'} = {..<length h'}" by auto
    with r have "represents h' v (PDict out)" by (simp add: represents_def)
    then show ?thesis using Inr q o x by simp
  qed
qed

lemma example_store_represents:
  "represents example_store (VRef 2) (PDict example_store_tree)"
proof -
  let ?S = "{..<length example_store}"
  have l: "h_lookup example_store 0 = Some (ODict [(KStr ''name'', VStr ''Acme Club'')])"
    "h_lookup example_store 1 = Some (ODict [(KStr ''ABC'', VRef 0)])"
    "h_lookup example_store 2 = Some (ODict [(KStr ''meet'', VRef 3)])"
    "h_lookup example_store 3 = Some (ODict [(KStr ''teams'', VRef 1)])"
    by (simp_all add: h_lookup_def example_store_def)
  have n: "length example_store = 4" by (simp add: example_store_def)
  have team: "rep_in ?S example_store (VRef 0) (PDict [(KStr ''name'', PStr ''Acme Club'')])"
    by (rule rep_DictI[OF _ l(1)]) (simp_all add: n items_rep_def rep_Str)
  have teams: "rep_in ?S example_store (VRef 1)
      (PDict [(KStr ''ABC'', PDict [(KStr ''name'', PStr ''Acme Club'')])])"
    by (rule rep_DictI[OF _ l(2)]) (insert team[unfolded n], simp_all add: n items_rep_def)
  have meet: "rep_in ?S example_store (VRef 3)
      (PDict [(KStr ''teams'', PDict [(KStr ''ABC'',
         PDict [(KStr ''name'', PStr ''Acme Club'')])])])"
    by (rule rep_DictI[OF _ l(4)]) (insert teams[unfolded n], simp_all add: n items_rep_def)
  have "rep_in ?S example_store (VRef 2) (PDict example_store_tree)"
    unfolding example_store_tree_def
    by (rule rep_DictI[OF _ l(3)]) (insert meet[unfolded n], simp_all add: n items_rep_def)
  then show ?thesis by (simp add: represents_def)
qed

lemma example_store_moved_represents:
  "represents example_store_moved (VRef 1) (PDict example_store_tree)"
proof -
  let ?S = "{..<length example_store_moved}"
  have l: "h_lookup example_store_moved 1 = Some (ODict [(KStr ''meet'', VRef 2)])"
    "h_lookup example_store_moved 2 = Some (ODict [(KStr ''teams'', VRef 4)])"
    "h_lookup example_store_moved 3 = Some (ODict [(KStr ''name'', VStr ''Acme Club'')])"
    "h_lookup example_store_moved 4 = Some (ODict [(KStr ''ABC'', VRef 3)])"
    by (simp_all add: h_lookup_def example_store_moved_def)
  have n: "length example_store_moved = 5" by (simp add: example_store_moved_def)
  have team: "rep_in ?S example_store_moved (VRef 3)
      (PDict [(KStr ''name'', PStr ''Acme Club'')])"
    by (rule rep_DictI[OF _ l(3)]) (simp_all add: n items_rep_def rep_Str)
  have teams: "rep_in ?S example_store_moved (VRef 4)
      (PDict [(KStr ''ABC'', PDict [(KStr ''name'', PStr ''Acme Club'')])])"
    by (rule rep_DictI[OF _ l(4)]) (insert team[unfolded n], simp_all add: n items_rep_def)
  have meet: "rep_in ?S example_store_moved (VRef 2)
      (PDict [(KStr ''teams'', PDict [(KStr ''ABC'',
         PDict [(KStr ''name'', PStr ''Acme Club'')])])])"
    by (rule rep_DictI[OF _ l(2)]) (insert teams[unfolded n], simp_all add: n items_rep_def)
  have "rep_in ?S example_store_moved (VRef 1) (PDict example_store_tree)"
    unfolding example_store_tree_def
    by (rule rep_DictI[OF _ l(1)]) (insert meet[unfolded n], simp_all add: n items_rep_def)
  then show ?thesis by (simp add: represents_def)
qed

lemma example_store_run: "post_process example_store_tree = Inr example_store_output"
  by code_simp

text \<open>
  Claim C9.  The reshaping is deterministic: two runs on equal input trees produce
  equal output trees.  The two runs may start in different stores, with the input at
  different addresses and among other objects; when both inputs are the same tree
  \<open>t\<close>, either both runs raise the same exception, or both return and the two results
  are the same tree, the one that \<open>post_process\<close> gives for \<open>t\<close>.  So the output depends
  on the input tree alone, not on addresses or on the rest of the store.
\<close>

theorem post_process_deterministic:
  assumes "represents h1 p1 (PDict t)" and "represents h2 p2 (PDict t)"
  shows "case post_process t of
           Inl e \<Rightarrow>
             (\<exists>h1' h2'. post_process_h p1 h1 = Inl (e, h1') \<and> post_process_h p2 h2 = Inl (e, h2'))
         | Inr out \<Rightarrow>
             (\<exists>v1 h1' v2 h2'.
                post_process_h p1 h1 = Inr (v1, h1') \<and> post_process_h p2 h2 = Inr (v2, h2') \<and>
                represents h1' v1 (PDict out) \<and> represents h2' v2 (PDict out))"
  using post_process_h_correct[OF assms(1)] post_process_h_correct[OF assms(2)]
  by (cases "post_process t") auto

theorem post_process_deterministic_witness:
  "post_process example_store_tree = Inr example_store_output \<and>
   (\<exists>v1 h1' v2 h2'.
      post_process_h (VRef 2) example_store = Inr (v1, h1') \<and>
      post_process_h (VRef 1) example_store_moved = Inr (v2, h2') \<and>
      represents h1' v1 (PDict example_store_output) \<and>
      represents h2' v2 (PDict example_store_output))"
  using post_process_deterministic[OF example_store_represents example_store_moved_represents]
  by (simp add: example_store_run)

end
